theory Spec2Isabelle
  imports Main "HOL-Library.Word"
begin

section \<open>EmbedFS: a read-only file system over embedded arrays\<close>

text \<open>
  A shallow embedding of \<^verbatim>\<open>src/EmbedFS.cpp\<close>. The file holds two variants of the
  implementation: the minimal one, whose resolver compares raw names with \<^verbatim>\<open>strcmp\<close> and
  which carries the \<^verbatim>\<open>EmbedFSFile\<close> reader, and the full one, which normalises paths and
  synthesises directories. Names follow the source; a C++ member \<^verbatim>\<open>_pos\<close> of the file
  object is the field \<open>f_pos\<close>, a member \<^verbatim>\<open>names_\<close> of the resolver the field
  \<open>impl_names\<close>, and a member function \<^verbatim>\<open>C::f\<close> is the constant \<open>C_f\<close>.
\<close>

subsection \<open>Machine types\<close>

text \<open>
  \<^verbatim>\<open>size_t\<close> is the unsigned 32-bit integer of the ESP32 target the library is written
  for; \<^verbatim>\<open>uint32_t\<close> and \<^verbatim>\<open>uint8_t\<close> are what their names say. Arithmetic on them wraps
  around. A pointer that may be null is an \<open>option\<close>: a C string is \<open>string option\<close>, the
  bytes of a blob are \<open>byte list option\<close>, and an array argument is a list behind an
  \<open>option\<close>.
\<close>

type_synonym size_t = "32 word"
type_synonym uint32_t = "32 word"
type_synonym byte = "8 word"

subsection \<open>Path normalisation\<close>

text \<open>
  The source normalises a path in place, the same way at every use:
  \<^verbatim>\<open>if (!p.empty() && p.front() == '/') p.erase(0, 1);\<close>
  \<^verbatim>\<open>while (!p.empty() && p.back() == '/') p.pop_back();\<close>
\<close>

definition erase_front :: "string \<Rightarrow> string" where
  "erase_front p = (if p \<noteq> [] \<and> hd p = CHR ''/'' then tl p else p)"

function pop_back_slashes :: "string \<Rightarrow> string" where
  "pop_back_slashes p =
     (if p \<noteq> [] \<and> last p = CHR ''/'' then pop_back_slashes (butlast p) else p)"
  by pat_completeness auto
termination
  by (relation "measure length") auto

declare pop_back_slashes.simps [simp del]

definition normalize_path :: "string \<Rightarrow> string" where
  "normalize_path p = pop_back_slashes (erase_front p)"

text \<open>\<^verbatim>\<open>display = p.empty() ? "/" : "/" + p\<close>\<close>

definition display :: "string \<Rightarrow> string" where
  "display p = (if p = [] then ''/'' else CHR ''/'' # p)"

subsection \<open>The file object of the full variant\<close>

text \<open>
  \<^verbatim>\<open>class EmbeddedFileImpl\<close>: the path and its last segment (both \<^verbatim>\<open>strdup\<close> copies, null
  when the constructor was given a null path), the blob and its declared size, and the
  read position.
\<close>

datatype SeekMode = SeekSet | SeekCur | SeekEnd

record EmbeddedFileImpl =
  f_path :: "string option"
  f_name :: "string option"
  f_data :: "byte list option"
  f_size :: size_t
  f_pos :: size_t

text \<open>
  The name the constructors derive: \<^verbatim>\<open>p = strrchr(_path, '/')\<close>, and the name is the text
  after \<^verbatim>\<open>p\<close> when there is a slash with something behind it, the whole path otherwise.
\<close>

definition name_of_path :: "string option \<Rightarrow> string option" where
  "name_of_path pth =
     (case pth of
        None \<Rightarrow> None
      | Some s \<Rightarrow>
          (let after = rev (takeWhile (\<lambda>c. c \<noteq> CHR ''/'') (rev s))
           in if CHR ''/'' \<in> set s \<and> after \<noteq> [] then Some after else Some s))"

definition new_EmbeddedFileImpl ::
  "string option \<Rightarrow> byte list option \<Rightarrow> size_t \<Rightarrow> EmbeddedFileImpl" where
  "new_EmbeddedFileImpl pth d sz =
     \<lparr>f_path = pth, f_name = name_of_path pth, f_data = d, f_size = sz, f_pos = 0\<rparr>"

text \<open>
  \<^verbatim>\<open>read(buf, size)\<close>, the requested size being \<open>len\<close>. The loop
  \<^verbatim>\<open>for (i = 0; i < toRead; ++i) buf[i] = _data[_pos + i]\<close> is \<open>copy_bytes\<close>; the result is
  the count returned, the caller's buffer after the call and the object after the call. The
  read \<open>src ! (off + i)\<close> is defined when the blob holds the declared size, the write when
  the buffer holds the requested size; the theorems on \<^verbatim>\<open>read\<close> assume both.
\<close>

definition copy_bytes :: "byte list \<Rightarrow> nat \<Rightarrow> nat \<Rightarrow> byte list \<Rightarrow> byte list" where
  "copy_bytes src off n buf = fold (\<lambda>i b. b[i := src ! (off + i)]) [0..<n] buf"

definition EmbeddedFileImpl_read ::
  "EmbeddedFileImpl \<Rightarrow> byte list \<Rightarrow> size_t \<Rightarrow> size_t \<times> byte list \<times> EmbeddedFileImpl" where
  "EmbeddedFileImpl_read f buf len =
     (case f_data f of
        None \<Rightarrow> (0, buf, f)
      | Some d \<Rightarrow>
          if f_pos f \<ge> f_size f then (0, buf, f)
          else
            (let remaining = f_size f - f_pos f;
                 toRead = (if len < remaining then len else remaining)
             in (toRead, copy_bytes d (unat (f_pos f)) (unat toRead) buf,
                 f\<lparr>f_pos := f_pos f + toRead\<rparr>)))"

text \<open>\<^verbatim>\<open>seek(uint32_t pos, SeekMode mode)\<close>: the sums are sums of \<^verbatim>\<open>size_t\<close>.\<close>

definition EmbeddedFileImpl_seek ::
  "EmbeddedFileImpl \<Rightarrow> uint32_t \<Rightarrow> SeekMode \<Rightarrow> bool \<times> EmbeddedFileImpl" where
  "EmbeddedFileImpl_seek f pos mode =
     (let newpos = (case mode of
                      SeekSet \<Rightarrow> pos
                    | SeekCur \<Rightarrow> f_pos f + pos
                    | SeekEnd \<Rightarrow> f_size f + pos)
      in if newpos > f_size f then (False, f) else (True, f\<lparr>f_pos := newpos\<rparr>))"

text \<open>\<^verbatim>\<open>void close() override {}\<close> and \<^verbatim>\<open>operator bool() { return _data != nullptr; }\<close>\<close>

definition EmbeddedFileImpl_close :: "EmbeddedFileImpl \<Rightarrow> EmbeddedFileImpl" where
  "EmbeddedFileImpl_close f = f"

definition EmbeddedFileImpl_bool :: "EmbeddedFileImpl \<Rightarrow> bool" where
  "EmbeddedFileImpl_bool f = (f_data f \<noteq> None)"

subsection \<open>The reader of the minimal variant\<close>

text \<open>\<^verbatim>\<open>class EmbedFSFile\<close>, with its constructors, boolean conversion and \<^verbatim>\<open>close\<close>.\<close>

record EmbedFSFile =
  e_dataPtr :: "byte list option"
  e_dataSize :: size_t
  e_pos :: size_t

definition new_EmbedFSFile :: "byte list option \<Rightarrow> size_t \<Rightarrow> EmbedFSFile" where
  "new_EmbedFSFile d sz = \<lparr>e_dataPtr = d, e_dataSize = sz, e_pos = 0\<rparr>"

definition empty_EmbedFSFile :: EmbedFSFile where
  "empty_EmbedFSFile = \<lparr>e_dataPtr = None, e_dataSize = 0, e_pos = 0\<rparr>"

definition EmbedFSFile_bool :: "EmbedFSFile \<Rightarrow> bool" where
  "EmbedFSFile_bool f = (e_dataPtr f \<noteq> None)"

definition EmbedFSFile_close :: "EmbedFSFile \<Rightarrow> EmbedFSFile" where
  "EmbedFSFile_close f = f\<lparr>e_dataPtr := None, e_dataSize := 0, e_pos := 0\<rparr>"

subsection \<open>The resolver\<close>

text \<open>
  \<^verbatim>\<open>class EmbedFSImpl\<close> keeps the three parallel arrays and their common length as it was
  given them. Every loop of the class is \<^verbatim>\<open>for (size_t i = 0; i < count_; ++i)\<close>: it visits
  the indices \<open>indices impl\<close> in this order.
\<close>

record EmbedFSImpl =
  impl_names :: "string option list"
  impl_data :: "byte list option list"
  impl_sizes :: "size_t list"
  impl_count :: size_t

definition indices :: "EmbedFSImpl \<Rightarrow> nat list" where
  "indices impl = [0..<unat (impl_count impl)]"

text \<open>
  \<^verbatim>\<open>struct Entry\<close> of the directory view and the directory object. A null \<^verbatim>\<open>_owner\<close> is
  \<open>None\<close>.
\<close>

record Entry =
  path :: string
  isDir :: bool

record EmbeddedDirImpl =
  d_path :: "string option"
  d_name :: "string option"
  d_owner :: "EmbedFSImpl option"
  d_entries :: "Entry list"
  d_index :: size_t

definition new_EmbeddedDirImpl ::
  "string option \<Rightarrow> EmbedFSImpl option \<Rightarrow> Entry list \<Rightarrow> EmbeddedDirImpl" where
  "new_EmbeddedDirImpl pth owner entries =
     \<lparr>d_path = pth, d_name = name_of_path pth, d_owner = owner, d_entries = entries,
      d_index = 0\<rparr>"

definition EmbeddedDirImpl_bool :: "EmbeddedDirImpl \<Rightarrow> bool" where
  "EmbeddedDirImpl_bool d = (d_path d \<noteq> None)"

text \<open>
  \<^verbatim>\<open>FileImplPtr\<close>, a shared pointer to a file object or a directory object, or null
  (\<^verbatim>\<open>FileImplPtr()\<close>).
\<close>

datatype FileImplPtr = NullPtr | FilePtr EmbeddedFileImpl | DirPtr EmbeddedDirImpl

text \<open>The first loop of \<^verbatim>\<open>open\<close> and of \<^verbatim>\<open>exists\<close>: the index of the first exact match.\<close>

fun find_exact :: "string option list \<Rightarrow> string \<Rightarrow> nat list \<Rightarrow> nat option" where
  "find_exact nms p [] = None"
| "find_exact nms p (i # rest) =
     (case nms ! i of
        None \<Rightarrow> find_exact nms p rest
      | Some nm \<Rightarrow> if normalize_path nm = p then Some i else find_exact nms p rest)"

text \<open>\<^verbatim>\<open>std::string::find(char)\<close>: the first position of the character, \<open>None\<close> for \<^verbatim>\<open>npos\<close>.\<close>

fun find_char :: "char \<Rightarrow> string \<Rightarrow> nat option" where
  "find_char c [] = None"
| "find_char c (x # xs) = (if x = c then Some 0 else map_option Suc (find_char c xs))"

text \<open>The lambda \<^verbatim>\<open>addUnique\<close> of \<^verbatim>\<open>open\<close>, on the vector it captures.\<close>

fun addUnique :: "Entry list \<Rightarrow> string \<Rightarrow> bool \<Rightarrow> Entry list" where
  "addUnique [] pth isD = [\<lparr>path = pth, isDir = isD\<rparr>]"
| "addUnique (e # es) pth isD =
     (if path e = pth then (if isD \<and> \<not> isDir e then e\<lparr>isDir := True\<rparr> else e) # es
      else e # addUnique es pth isD)"

text \<open>
  The body of the second loop of \<^verbatim>\<open>open\<close> at index \<open>i\<close>; every \<^verbatim>\<open>continue\<close> leaves the
  vector as it is.
\<close>

definition scan_step ::
  "string option list \<Rightarrow> string \<Rightarrow> string \<Rightarrow> nat \<Rightarrow> Entry list \<Rightarrow> Entry list" where
  "scan_step nms p prefix i entries =
     (case nms ! i of
        None \<Rightarrow> entries
      | Some nm \<Rightarrow>
          (let fn = normalize_path nm in
           if p = [] then
             (if fn = [] then entries
              else
                (let slashPos = find_char CHR ''/'' fn;
                     isD = (slashPos \<noteq> None);
                     childName = (case slashPos of Some k \<Rightarrow> take k fn | None \<Rightarrow> fn);
                     childPath = CHR ''/'' # childName
                 in addUnique entries childPath isD))
           else
             (if length fn \<le> length prefix \<or> take (length prefix) fn \<noteq> prefix then entries
              else
                (let remainder = drop (length prefix) fn in
                 if remainder = [] then entries
                 else
                   (let slashPos = find_char CHR ''/'' remainder;
                        isD = (slashPos \<noteq> None);
                        childName = (case slashPos of Some k \<Rightarrow> take k remainder
                                     | None \<Rightarrow> remainder);
                        childPath = CHR ''/'' # p @ ''/'' @ childName
                    in addUnique entries childPath isD)))))"

text \<open>\<^verbatim>\<open>EmbedFSImpl::open(path, mode, create)\<close>; \<open>None\<close> is the null path.\<close>

definition EmbedFSImpl_open :: "EmbedFSImpl \<Rightarrow> string option \<Rightarrow> FileImplPtr" where
  "EmbedFSImpl_open impl pth =
     (case pth of
        None \<Rightarrow> NullPtr
      | Some raw \<Rightarrow>
          (let p = normalize_path raw; disp = display p in
           case find_exact (impl_names impl) p (indices impl) of
             Some i \<Rightarrow>
               FilePtr (new_EmbeddedFileImpl (Some disp) (impl_data impl ! i) (impl_sizes impl ! i))
           | None \<Rightarrow>
               (let prefix = (if p = [] then [] else p @ ''/'');
                    entries = fold (scan_step (impl_names impl) p prefix) (indices impl) []
                in if entries \<noteq> [] \<or> p = []
                   then DirPtr (new_EmbeddedDirImpl (Some disp) (Some impl) entries)
                   else NullPtr)))"

text \<open>The second loop of \<^verbatim>\<open>exists\<close>.\<close>

fun has_prefixed :: "string option list \<Rightarrow> string \<Rightarrow> nat list \<Rightarrow> bool" where
  "has_prefixed nms prefix [] = False"
| "has_prefixed nms prefix (i # rest) =
     (case nms ! i of
        None \<Rightarrow> has_prefixed nms prefix rest
      | Some nm \<Rightarrow>
          (let fn = normalize_path nm in
           if prefix = [] \<or> (length fn > length prefix \<and> take (length prefix) fn = prefix)
           then True else has_prefixed nms prefix rest))"

definition EmbedFSImpl_exists :: "EmbedFSImpl \<Rightarrow> string option \<Rightarrow> bool" where
  "EmbedFSImpl_exists impl pth =
     (case pth of
        None \<Rightarrow> False
      | Some raw \<Rightarrow>
          (let p = normalize_path raw in
           if p = [] then True
           else if find_exact (impl_names impl) p (indices impl) \<noteq> None then True
           else
             (let prefix = (if p = [] then [] else p @ ''/'')
              in has_prefixed (impl_names impl) prefix (indices impl))))"

subsection \<open>The resolver of the minimal variant\<close>

text \<open>
  The loop of the minimal \<^verbatim>\<open>open\<close> and \<^verbatim>\<open>exists\<close>:
  \<^verbatim>\<open>if (names_[i] && strcmp(names_[i], path) == 0)\<close>. The path is not tested for null
  there, so it is a string.
\<close>

fun find_strcmp :: "string option list \<Rightarrow> string \<Rightarrow> nat list \<Rightarrow> nat option" where
  "find_strcmp nms pth [] = None"
| "find_strcmp nms pth (i # rest) =
     (case nms ! i of
        None \<Rightarrow> find_strcmp nms pth rest
      | Some nm \<Rightarrow> if nm = pth then Some i else find_strcmp nms pth rest)"

definition EmbedFSImpl_min_exists :: "EmbedFSImpl \<Rightarrow> string \<Rightarrow> bool" where
  "EmbedFSImpl_min_exists impl pth = (find_strcmp (impl_names impl) pth (indices impl) \<noteq> None)"

definition EmbedFSImpl_min_open :: "EmbedFSImpl \<Rightarrow> string \<Rightarrow> FileImplPtr" where
  "EmbedFSImpl_min_open impl pth =
     (case find_strcmp (impl_names impl) pth (indices impl) of
        Some i \<Rightarrow> FilePtr (new_EmbeddedFileImpl (Some pth) (impl_data impl ! i) (impl_sizes impl ! i))
      | None \<Rightarrow> NullPtr)"

subsection \<open>The file system object\<close>

text \<open>
  \<^verbatim>\<open>class EmbedFSFS\<close>: the resolver (\<^verbatim>\<open>_impl\<close>, null while unmounted) and the copies of the
  arguments of \<^verbatim>\<open>begin\<close>. A \<^verbatim>\<open>File\<close> of the host framework wraps a \<^verbatim>\<open>FileImplPtr\<close>; the
  empty \<^verbatim>\<open>File()\<close> wraps the null pointer.
\<close>

record EmbedFSFS =
  fs_impl :: "EmbedFSImpl option"
  fileNames :: "string option list option"
  fileData :: "byte list option list option"
  fileSizes :: "size_t list option"
  fileCount :: size_t

definition new_EmbedFSFS :: EmbedFSFS where
  "new_EmbedFSFS =
     \<lparr>fs_impl = None, fileNames = None, fileData = None, fileSizes = None, fileCount = 0\<rparr>"

definition EmbedFSFS_begin ::
  "EmbedFSFS \<Rightarrow> string option list option \<Rightarrow> byte list option list option \<Rightarrow>
   size_t list option \<Rightarrow> size_t \<Rightarrow> bool \<times> EmbedFSFS" where
  "EmbedFSFS_begin s file_names file_data file_sizes file_count =
     (case (file_names, file_data, file_sizes) of
        (Some n, Some d, Some z) \<Rightarrow>
          if file_count = 0 then (False, s)
          else
            (True,
             s\<lparr>fs_impl := Some \<lparr>impl_names = n, impl_data = d, impl_sizes = z,
                                 impl_count = file_count\<rparr>,
               fileNames := Some n, fileData := Some d, fileSizes := Some z,
               fileCount := file_count\<rparr>)
      | _ \<Rightarrow> (False, s))"

definition EmbedFSFS_end :: "EmbedFSFS \<Rightarrow> EmbedFSFS" where
  "EmbedFSFS_end s =
     s\<lparr>fs_impl := None, fileNames := None, fileData := None, fileSizes := None,
       fileCount := 0\<rparr>"

definition EmbedFSFS_exists :: "EmbedFSFS \<Rightarrow> string option \<Rightarrow> bool" where
  "EmbedFSFS_exists s pth =
     (case fs_impl s of None \<Rightarrow> False | Some impl \<Rightarrow> EmbedFSImpl_exists impl pth)"

definition EmbedFSFS_open :: "EmbedFSFS \<Rightarrow> string option \<Rightarrow> FileImplPtr" where
  "EmbedFSFS_open s pth =
     (case fs_impl s of None \<Rightarrow> NullPtr | Some impl \<Rightarrow> EmbedFSImpl_open impl pth)"

text \<open>
  The boolean conversion of the host's \<^verbatim>\<open>File\<close>: it holds an object, and the object's own
  conversion is true.
\<close>

definition File_bool :: "FileImplPtr \<Rightarrow> bool" where
  "File_bool h =
     (case h of
        NullPtr \<Rightarrow> False
      | FilePtr f \<Rightarrow> EmbeddedFileImpl_bool f
      | DirPtr d \<Rightarrow> EmbeddedDirImpl_bool d)"

subsection \<open>Reference definitions for the properties\<close>

text \<open>
  The definitions of this subsection are not code of the repository. They say, in the words
  of the design, what the resolver and a sequence of reads are expected to produce; the
  theorems compare them with the definitions above.
\<close>

text \<open>
  The child a normalised entry path \<open>fn\<close> contributes to the directory of the normalised
  query \<open>p\<close>: the prefix is \<open>p\<close> followed by a slash (empty for the root); an entry that
  starts with the prefix and is longer contributes its next segment, as a directory when a
  slash follows the segment.
\<close>

definition child_occurrence :: "string \<Rightarrow> string \<Rightarrow> (string \<times> bool) option" where
  "child_occurrence p fn =
     (let pre = (if p = [] then [] else p @ ''/'') in
      if take (length pre) fn = pre \<and> length pre < length fn
      then
        (let rest = drop (length pre) fn
         in Some (CHR ''/'' # pre @ takeWhile (\<lambda>c. c \<noteq> CHR ''/'') rest, CHR ''/'' \<in> set rest))
      else None)"

definition occurrences :: "string option list \<Rightarrow> string \<Rightarrow> nat list \<Rightarrow> (string \<times> bool) list" where
  "occurrences nms p idxs =
     List.map_filter
       (\<lambda>i. case nms ! i of None \<Rightarrow> None | Some nm \<Rightarrow> child_occurrence p (normalize_path nm))
       idxs"

text \<open>
  Deduplication by name in first-seen order: each name once, at the place of its first
  occurrence, a directory when some occurrence of the name is one.
\<close>

definition first_seen :: "'a list \<Rightarrow> 'a list" where
  "first_seen xs = rev (remdups (rev xs))"

definition dedup_children :: "(string \<times> bool) list \<Rightarrow> Entry list" where
  "dedup_children occ =
     map (\<lambda>n. \<lparr>path = n, isDir = ((n, True) \<in> set occ)\<rparr>) (first_seen (map fst occ))"

definition children_of :: "EmbedFSImpl \<Rightarrow> string \<Rightarrow> Entry list" where
  "children_of impl p = dedup_children (occurrences (impl_names impl) p (indices impl))"

text \<open>Entry \<open>i\<close> has a name, and the name normalises to \<open>p\<close>.\<close>

definition exact_at :: "EmbedFSImpl \<Rightarrow> string \<Rightarrow> nat \<Rightarrow> bool" where
  "exact_at impl p i =
     (case impl_names impl ! i of None \<Rightarrow> False | Some nm \<Rightarrow> normalize_path nm = p)"

text \<open>
  The bytes behind a file object: those of its blob, none when the data pointer is null. A
  file object is called well formed when they are at least as many as its declared size.
\<close>

definition backing :: "EmbeddedFileImpl \<Rightarrow> byte list" where
  "backing f = (case f_data f of None \<Rightarrow> [] | Some d \<Rightarrow> d)"

text \<open>
  A client that calls \<^verbatim>\<open>read\<close> once for each requested length, each time with a fresh
  buffer of that length, and keeps the bytes each call delivered.
\<close>

fun read_all :: "EmbeddedFileImpl \<Rightarrow> size_t list \<Rightarrow> byte list list \<times> EmbeddedFileImpl" where
  "read_all f [] = ([], f)"
| "read_all f (len # lens) =
     (case EmbeddedFileImpl_read f (replicate (unat len) 0) len of
        (r, buf, f') \<Rightarrow>
          (case read_all f' lens of (chunks, f'') \<Rightarrow> (take (unat r) buf # chunks, f'')))"

section \<open>Properties\<close>

subsection \<open>Path normalisation\<close>

lemma pop_back_slashes_Nil [simp]: "pop_back_slashes [] = []"
  by (simp add: pop_back_slashes.simps)

lemma pop_back_slashes_snoc:
  "pop_back_slashes (xs @ [c]) = (if c = CHR ''/'' then pop_back_slashes xs else xs @ [c])"
  by (subst pop_back_slashes.simps) simp

lemma pop_back_slashes_rev: "pop_back_slashes p = rev (dropWhile (\<lambda>c. c = CHR ''/'') (rev p))"
  by (induction p rule: rev_induct) (simp_all add: pop_back_slashes_snoc)

lemma pop_back_slashes_last:
  "pop_back_slashes p \<noteq> [] \<Longrightarrow> last (pop_back_slashes p) \<noteq> CHR ''/''"
  by (induction p rule: rev_induct) (auto simp: pop_back_slashes_snoc split: if_splits)

lemma pop_back_slashes_fixed:
  "p = [] \<or> last p \<noteq> CHR ''/'' \<Longrightarrow> pop_back_slashes p = p"
  by (subst pop_back_slashes.simps) auto

lemma pop_back_slashes_idem: "pop_back_slashes (pop_back_slashes p) = pop_back_slashes p"
  using pop_back_slashes_last [of p] by (intro pop_back_slashes_fixed) blast

lemma length_pop_back_slashes: "length (pop_back_slashes p) \<le> length p"
  by (simp add: pop_back_slashes_rev) (metis length_dropWhile_le length_rev)

lemma normalize_last: "normalize_path p \<noteq> [] \<Longrightarrow> last (normalize_path p) \<noteq> CHR ''/''"
  by (simp add: normalize_path_def pop_back_slashes_last)

lemma hd_pop_back_slashes: "pop_back_slashes p \<noteq> [] \<Longrightarrow> hd (pop_back_slashes p) = hd p"
proof (induction p rule: rev_induct)
  case Nil
  then show ?case by simp
next
  case (snoc c xs)
  show ?case
  proof (cases "c = CHR ''/''")
    case True
    with snoc have "pop_back_slashes xs \<noteq> []" by (simp add: pop_back_slashes_snoc)
    moreover from this have "xs \<noteq> []" by auto
    ultimately show ?thesis using snoc True by (simp add: pop_back_slashes_snoc)
  next
    case False
    then show ?thesis by (simp add: pop_back_slashes_snoc)
  qed
qed

lemma normalize_path_no_double_slash:
  "take 2 p \<noteq> ''//'' \<Longrightarrow> normalize_path p = [] \<or> hd (normalize_path p) \<noteq> CHR ''/''"
proof (cases "p \<noteq> [] \<and> hd p = CHR ''/''")
  case True
  then obtain r where p: "p = CHR ''/'' # r" by (cases p) auto
  assume "take 2 p \<noteq> ''//''"
  with p have r: "r = [] \<or> hd r \<noteq> CHR ''/''" by (cases r) auto
  have "normalize_path p = pop_back_slashes r" by (simp add: normalize_path_def erase_front_def p)
  with r show ?thesis using hd_pop_back_slashes [of r] by auto
next
  case False
  then have "normalize_path p = pop_back_slashes p"
    by (auto simp: normalize_path_def erase_front_def)
  with False show ?thesis using hd_pop_back_slashes [of p] by auto
qed

lemma normalize_path_twice:
  "normalize_path (normalize_path p) = normalize_path p \<longleftrightarrow>
     (normalize_path p = [] \<or> hd (normalize_path p) \<noteq> CHR ''/'')"
proof (cases "normalize_path p = [] \<or> hd (normalize_path p) \<noteq> CHR ''/''")
  case True
  then have "erase_front (normalize_path p) = normalize_path p" by (auto simp: erase_front_def)
  then have "normalize_path (normalize_path p) = pop_back_slashes (normalize_path p)"
    by (simp add: normalize_path_def)
  also have "\<dots> = normalize_path p" by (simp add: normalize_path_def pop_back_slashes_idem)
  finally show ?thesis using True by simp
next
  case False
  then have "erase_front (normalize_path p) = tl (normalize_path p)"
    by (auto simp: erase_front_def)
  then have "normalize_path (normalize_path p) = pop_back_slashes (tl (normalize_path p))"
    by (simp add: normalize_path_def)
  then have "length (normalize_path (normalize_path p)) \<le> length (tl (normalize_path p))"
    using length_pop_back_slashes [of "tl (normalize_path p)"] by simp
  also have "\<dots> < length (normalize_path p)" using False by (cases "normalize_path p") auto
  finally show ?thesis using False by auto
qed

text \<open>
  C6. Normalisation is not idempotent on every string: it removes one leading slash only, so
  a path that begins with two slashes keeps one, and a second normalisation removes it.
\<close>

theorem normalize_path_not_idempotent:
  "normalize_path (normalize_path ''//a'') \<noteq> normalize_path ''//a''"
  by (simp add: normalize_path_def erase_front_def pop_back_slashes.simps)

text \<open>
  C6, as amended. Normalising twice gives the same as normalising once for every path that
  does not begin with two slashes; in general it does exactly when the normalised path does
  not begin with a slash.
\<close>

theorem normalize_path_idempotent:
  "(take 2 p \<noteq> ''//'' \<longrightarrow> normalize_path (normalize_path p) = normalize_path p) \<and>
   (normalize_path (normalize_path p) = normalize_path p \<longleftrightarrow>
      (normalize_path p = [] \<or> hd (normalize_path p) \<noteq> CHR ''/''))"
  using normalize_path_no_double_slash [of p] normalize_path_twice [of p] by blast

theorem normalize_path_idempotent_witness:
  "take 2 ''/a/b//'' \<noteq> ''//'' \<and>
   normalize_path (normalize_path ''/a/b//'') = normalize_path ''/a/b//'' \<and>
   normalize_path ''/a/b//'' = ''a/b''"
  using normalize_path_idempotent [of "''/a/b//''"]
  by (simp add: normalize_path_def erase_front_def pop_back_slashes.simps)

subsection \<open>Seeking\<close>

lemma seek_newpos:
  "EmbeddedFileImpl_seek f off mode =
     (if f_size f < (case mode of SeekSet \<Rightarrow> off | SeekCur \<Rightarrow> f_pos f + off | SeekEnd \<Rightarrow> f_size f + off)
      then (False, f)
      else (True, f\<lparr>f_pos := (case mode of SeekSet \<Rightarrow> off | SeekCur \<Rightarrow> f_pos f + off
                                | SeekEnd \<Rightarrow> f_size f + off)\<rparr>))"
  by (simp add: EmbeddedFileImpl_seek_def Let_def)

text \<open>
  C4. The claim fails where the sum of \<^verbatim>\<open>size_t\<close> wraps around, which takes a declared size
  of at least \<open>2\<^sup>3\<^sup>1\<close>. \<^verbatim>\<open>open\<close> takes the size of an entry as it is declared; for the entry
  \<^verbatim>\<open>/n\<close> with a null blob and the declared size \<open>2\<^sup>3\<^sup>2 - 1\<close> it returns a file object of that
  size, which \<^verbatim>\<open>seek\<close> moves to its end. Seeking one byte further from there has the
  candidate \<open>2\<^sup>3\<^sup>2\<close>, outside the file whether the offset is read as unsigned or as two's
  complement, yet the call returns true and the position becomes 0.
\<close>

theorem seek_counterexample:
  "EmbedFSImpl_open
     \<lparr>impl_names = [Some ''/n''], impl_data = [None], impl_sizes = [4294967295],
      impl_count = 1\<rparr> (Some ''/n'') =
     FilePtr \<lparr>f_path = Some ''/n'', f_name = Some ''n'', f_data = None, f_size = 4294967295,
       f_pos = 0\<rparr> \<and>
   EmbeddedFileImpl_seek
     \<lparr>f_path = Some ''/n'', f_name = Some ''n'', f_data = None, f_size = 4294967295,
      f_pos = 0\<rparr> 4294967295 SeekSet =
     (True, \<lparr>f_path = Some ''/n'', f_name = Some ''n'', f_data = None, f_size = 4294967295,
      f_pos = 4294967295\<rparr>) \<and>
   EmbeddedFileImpl_seek
     \<lparr>f_path = Some ''/n'', f_name = Some ''n'', f_data = None, f_size = 4294967295,
      f_pos = 4294967295\<rparr> 1 SeekCur =
     (True, \<lparr>f_path = Some ''/n'', f_name = Some ''n'', f_data = None, f_size = 4294967295,
      f_pos = 0\<rparr>) \<and>
   unat (4294967295 :: size_t) < unat (4294967295 :: size_t) + unat (1 :: uint32_t) \<and>
   uint (4294967295 :: size_t) < uint (4294967295 :: size_t) + sint (1 :: uint32_t)"
  by (simp add: EmbeddedFileImpl_seek_def EmbedFSImpl_open_def indices_def normalize_path_def
      erase_front_def pop_back_slashes.simps display_def new_EmbeddedFileImpl_def
      name_of_path_def Let_def)

text \<open>
  The offset is a \<^verbatim>\<open>uint32_t\<close>; a caller seeks backwards by passing a negative number through
  it, and the sum of \<^verbatim>\<open>size_t\<close> then gives the position before. So the offset is read as a
  two's complement number.
\<close>

lemma word32_of_sint: "(word_of_int (sint (w :: 32 word)) :: 32 word) = w"
  by simp

lemma word32_of_uint_plus_sint:
  "(word_of_int (uint (a :: 32 word) + sint (w :: 32 word)) :: 32 word) = a + w"
  by (simp only: of_int_add of_int_uint of_int_sint) simp

lemma uint32_of_int_window:
  assumes "- (2 ^ 31) \<le> (c :: int)" and "c < 2 ^ 32"
  shows "uint (word_of_int c :: 32 word) = (if 0 \<le> c then c else c + 2 ^ 32)"
proof -
  have m: "uint (word_of_int c :: 32 word) = c mod 2 ^ 32" by (simp add: uint_word_of_int)
  show ?thesis
  proof (cases "0 \<le> c")
    case True
    with assms have "c mod 2 ^ 32 = c" by (intro mod_pos_pos_trivial) simp_all
    with m True show ?thesis by simp
  next
    case False
    have "c mod 2 ^ 32 = (c + 2 ^ 32) mod 2 ^ 32" by simp
    also have "\<dots> = c + 2 ^ 32" using assms False by (intro mod_pos_pos_trivial) simp_all
    finally show ?thesis using m False by simp
  qed
qed

text \<open>
  C4, as amended. For every file object of a size \<open>N\<close> below \<open>2\<^sup>3\<^sup>1\<close> at a position \<open>P\<close> in
  \<open>[0, N]\<close>, every offset and every mode: with \<open>cand\<close> the offset, \<open>P\<close> plus the offset, or \<open>N\<close>
  plus the offset, \<^verbatim>\<open>seek\<close> returns false and leaves the object unchanged when \<open>cand\<close> lies
  outside \<open>[0, N]\<close>, and otherwise sets the position to \<open>cand\<close> and returns true.
\<close>

theorem seek_signed:
  assumes small: "uint (f_size f) < 2 ^ 31" and inv: "f_pos f \<le> f_size f"
  shows "(let cand = (case mode of SeekSet \<Rightarrow> sint off | SeekCur \<Rightarrow> uint (f_pos f) + sint off
                | SeekEnd \<Rightarrow> uint (f_size f) + sint off)
    in EmbeddedFileImpl_seek f off mode =
         (if 0 \<le> cand \<and> cand \<le> uint (f_size f) then (True, f\<lparr>f_pos := of_int cand\<rparr>)
          else (False, f)) \<and>
       (0 \<le> cand \<and> cand \<le> uint (f_size f) \<longrightarrow>
          uint (f_pos (snd (EmbeddedFileImpl_seek f off mode))) = cand))"
proof -
  define np where
    "np = (case mode of SeekSet \<Rightarrow> off | SeekCur \<Rightarrow> f_pos f + off | SeekEnd \<Rightarrow> f_size f + off)"
  define cand where
    "cand = (case mode of SeekSet \<Rightarrow> sint off | SeekCur \<Rightarrow> uint (f_pos f) + sint off
             | SeekEnd \<Rightarrow> uint (f_size f) + sint off)"
  have N: "0 \<le> uint (f_size f)" by simp
  have P: "uint (f_pos f) \<le> uint (f_size f)" "0 \<le> uint (f_pos f)"
    using inv by (simp_all add: word_le_def)
  have so: "- (2 ^ 31) \<le> sint off" "sint off < 2 ^ 31"
    using sint_ge [of off] sint_lt [of off] by simp_all
  have np: "np = word_of_int cand"
    unfolding np_def cand_def
    by (cases mode) (simp_all only: SeekMode.case word32_of_sint word32_of_uint_plus_sint)
  have small': "uint (f_size f) < 2147483648" using small by simp
  have so': "- 2147483648 \<le> sint off" "sint off < 2147483648" using so by simp_all
  have "- 2147483648 \<le> cand"
    unfolding cand_def using N P so' by (cases mode; simp only: SeekMode.case; linarith)
  then have lo: "- (2 ^ 31) \<le> cand" by simp
  have "cand < 4294967296"
    unfolding cand_def using small' P so' by (cases mode; simp only: SeekMode.case; linarith)
  then have hi: "cand < 2 ^ 32" by simp
  have u: "uint np = (if 0 \<le> cand then cand else cand + 2 ^ 32)"
    unfolding np by (rule uint32_of_int_window [OF lo hi])
  have lt: "f_size f < np \<longleftrightarrow> \<not> (0 \<le> cand \<and> cand \<le> uint (f_size f))"
    unfolding word_less_def u using small lo by auto
  have s: "EmbeddedFileImpl_seek f off mode =
      (if 0 \<le> cand \<and> cand \<le> uint (f_size f) then (True, f\<lparr>f_pos := of_int cand\<rparr>)
       else (False, f))"
    using seek_newpos [of f off mode] lt unfolding np_def [symmetric] by (simp add: np)
  have at: "uint (f_pos (snd (EmbeddedFileImpl_seek f off mode))) = cand"
    if "0 \<le> cand \<and> cand \<le> uint (f_size f)"
  proof -
    have "f_pos (snd (EmbeddedFileImpl_seek f off mode)) = np" using s that by (simp add: np)
    with u that show ?thesis by simp
  qed
  show ?thesis unfolding Let_def cand_def [symmetric] using s at by simp
qed

theorem seek_signed_witness:
  "EmbeddedFileImpl_seek
     \<lparr>f_path = Some ''/f'', f_name = Some ''f'', f_data = Some [1, 2, 3, 4, 5], f_size = 5,
      f_pos = 2\<rparr> 2 SeekCur =
     (True, \<lparr>f_path = Some ''/f'', f_name = Some ''f'', f_data = Some [1, 2, 3, 4, 5], f_size = 5,
      f_pos = 4\<rparr>) \<and>
   EmbeddedFileImpl_seek
     \<lparr>f_path = Some ''/f'', f_name = Some ''f'', f_data = Some [1, 2, 3, 4, 5], f_size = 5,
      f_pos = 2\<rparr> 4294967295 SeekCur =
     (True, \<lparr>f_path = Some ''/f'', f_name = Some ''f'', f_data = Some [1, 2, 3, 4, 5], f_size = 5,
      f_pos = 1\<rparr>) \<and>
   EmbeddedFileImpl_seek
     \<lparr>f_path = Some ''/f'', f_name = Some ''f'', f_data = Some [1, 2, 3, 4, 5], f_size = 5,
      f_pos = 2\<rparr> 4294967293 SeekCur =
     (False, \<lparr>f_path = Some ''/f'', f_name = Some ''f'', f_data = Some [1, 2, 3, 4, 5], f_size = 5,
      f_pos = 2\<rparr>) \<and>
   EmbeddedFileImpl_seek
     \<lparr>f_path = Some ''/f'', f_name = Some ''f'', f_data = Some [1, 2, 3, 4, 5], f_size = 5,
      f_pos = 2\<rparr> 6 SeekSet =
     (False, \<lparr>f_path = Some ''/f'', f_name = Some ''f'', f_data = Some [1, 2, 3, 4, 5], f_size = 5,
      f_pos = 2\<rparr>) \<and>
   EmbeddedFileImpl_seek
     \<lparr>f_path = Some ''/f'', f_name = Some ''f'', f_data = Some [1, 2, 3, 4, 5], f_size = 5,
      f_pos = 2\<rparr> 4294967291 SeekEnd =
     (True, \<lparr>f_path = Some ''/f'', f_name = Some ''f'', f_data = Some [1, 2, 3, 4, 5], f_size = 5,
      f_pos = 0\<rparr>)"
proof -
  let ?f = "\<lparr>f_path = Some ''/f'', f_name = Some ''f'', f_data = Some [1, 2, 3, 4, 5 :: byte],
    f_size = 5, f_pos = 2\<rparr>"
  have h1: "uint (f_size ?f) < 2 ^ 31" by simp
  have h2: "f_pos ?f \<le> f_size ?f" by simp
  note t = seek_signed [OF h1 h2]
  show ?thesis
    using t [where mode = SeekCur and off = 2] t [where mode = SeekCur and off = 4294967295]
      t [where mode = SeekCur and off = 4294967293] t [where mode = SeekSet and off = 6]
      t [where mode = SeekEnd and off = 4294967291]
    by (simp add: Let_def)
qed

subsection \<open>The life cycle of the file system object\<close>

text \<open>
  C7. \<^verbatim>\<open>begin\<close> returns true exactly when the three arrays are not null and the count is
  not zero. It then installs the resolver over the arrays and the count, and the object is
  mounted; otherwise it returns false and the object is as it was, so an unmounted object
  stays unmounted.
\<close>

theorem begin_mounts_iff:
  "fst (EmbedFSFS_begin s ns ds zs c) = (ns \<noteq> None \<and> ds \<noteq> None \<and> zs \<noteq> None \<and> c \<noteq> 0) \<and>
   (\<forall>n d z. ns = Some n \<and> ds = Some d \<and> zs = Some z \<and> c \<noteq> 0 \<longrightarrow>
      snd (EmbedFSFS_begin s ns ds zs c) =
        s\<lparr>fs_impl := Some \<lparr>impl_names = n, impl_data = d, impl_sizes = z, impl_count = c\<rparr>,
          fileNames := Some n, fileData := Some d, fileSizes := Some z, fileCount := c\<rparr>) \<and>
   (fst (EmbedFSFS_begin s ns ds zs c) \<longrightarrow> fs_impl (snd (EmbedFSFS_begin s ns ds zs c)) \<noteq> None) \<and>
   (\<not> fst (EmbedFSFS_begin s ns ds zs c) \<longrightarrow> snd (EmbedFSFS_begin s ns ds zs c) = s)"
  by (auto simp: EmbedFSFS_begin_def split: option.splits)

theorem begin_mounts_iff_witness:
  "fst (EmbedFSFS_begin new_EmbedFSFS (Some [Some ''/hello.txt'']) (Some [Some [104, 105]]) (Some [2]) 1) \<and>
   fs_impl (snd (EmbedFSFS_begin new_EmbedFSFS (Some [Some ''/hello.txt'']) (Some [Some [104, 105]]) (Some [2]) 1))
     = Some \<lparr>impl_names = [Some ''/hello.txt''], impl_data = [Some [104, 105]], impl_sizes = [2], impl_count = 1\<rparr> \<and>
   EmbedFSFS_begin new_EmbedFSFS None (Some [Some [104, 105]]) (Some [2]) 1 = (False, new_EmbedFSFS) \<and>
   EmbedFSFS_begin new_EmbedFSFS (Some [Some ''/hello.txt'']) (Some [Some [104, 105]]) (Some [2]) 0 = (False, new_EmbedFSFS)"
  using begin_mounts_iff [of new_EmbedFSFS "Some [Some ''/hello.txt'']" "Some [Some [104, 105]]" "Some [2]" 1]
    begin_mounts_iff [of new_EmbedFSFS None "Some [Some [104, 105]]" "Some [2]" 1]
    begin_mounts_iff [of new_EmbedFSFS "Some [Some ''/hello.txt'']" "Some [Some [104, 105]]" "Some [2]" 0]
  by (simp add: prod_eq_iff new_EmbedFSFS_def)

text \<open>
  C8. While the object is unmounted (no resolver installed: so it is when constructed, after
  \<^verbatim>\<open>end\<close>, and after a \<^verbatim>\<open>begin\<close> that failed on an unmounted object), \<^verbatim>\<open>exists\<close> is false
  and \<^verbatim>\<open>open\<close> returns the empty \<^verbatim>\<open>File\<close>, whose boolean conversion is false, for every path,
  the null path included.
\<close>

theorem unmounted_resolver:
  "(fs_impl s = None \<longrightarrow>
      EmbedFSFS_exists s pth = False \<and> EmbedFSFS_open s pth = NullPtr \<and>
      \<not> File_bool (EmbedFSFS_open s pth)) \<and>
   fs_impl new_EmbedFSFS = None \<and>
   fs_impl (EmbedFSFS_end s) = None \<and>
   (fs_impl s = None \<and> \<not> fst (EmbedFSFS_begin s ns ds zs c) \<longrightarrow>
      fs_impl (snd (EmbedFSFS_begin s ns ds zs c)) = None)"
  by (auto simp: EmbedFSFS_exists_def EmbedFSFS_open_def File_bool_def new_EmbedFSFS_def
      EmbedFSFS_end_def EmbedFSFS_begin_def split: option.splits)

theorem unmounted_resolver_witness:
  "fs_impl (EmbedFSFS_end (snd (EmbedFSFS_begin new_EmbedFSFS (Some [Some ''/hello.txt''])
      (Some [Some [104, 105]]) (Some [2]) 1))) = None \<and>
   EmbedFSFS_exists (EmbedFSFS_end (snd (EmbedFSFS_begin new_EmbedFSFS (Some [Some ''/hello.txt''])
      (Some [Some [104, 105]]) (Some [2]) 1))) (Some ''/hello.txt'') = False \<and>
   EmbedFSFS_open (EmbedFSFS_end (snd (EmbedFSFS_begin new_EmbedFSFS (Some [Some ''/hello.txt''])
      (Some [Some [104, 105]]) (Some [2]) 1))) (Some ''/hello.txt'') = NullPtr \<and>
   EmbedFSFS_exists new_EmbedFSFS (Some ''/hello.txt'') = False \<and>
   EmbedFSFS_open new_EmbedFSFS (Some ''/hello.txt'') = NullPtr"
  using
    unmounted_resolver [where s = "snd (EmbedFSFS_begin new_EmbedFSFS (Some [Some ''/hello.txt''])
      (Some [Some [104, 105]]) (Some [2]) 1)" and pth = "Some ''/hello.txt''"]
    unmounted_resolver [where s = new_EmbedFSFS and pth = "Some ''/hello.txt''"]
  by (simp add: EmbedFSFS_end_def EmbedFSFS_exists_def EmbedFSFS_open_def new_EmbedFSFS_def)

subsection \<open>Closing\<close>

text \<open>
  C9. The claim does not hold of the file object of the full variant, whose \<^verbatim>\<open>close\<close> has an
  empty body: after it the object still refers to its data, its size and position are what
  they were, and its boolean conversion is still true.
\<close>

theorem close_does_not_reset:
  "EmbeddedFileImpl_bool
     (EmbeddedFileImpl_close
        \<lparr>f_path = Some ''/hello.txt'', f_name = Some ''hello.txt'', f_data = Some [104, 105],
         f_size = 2, f_pos = 1\<rparr>) \<and>
   f_size
     (EmbeddedFileImpl_close
        \<lparr>f_path = Some ''/hello.txt'', f_name = Some ''hello.txt'', f_data = Some [104, 105],
         f_size = 2, f_pos = 1\<rparr>) = 2 \<and>
   f_pos
     (EmbeddedFileImpl_close
        \<lparr>f_path = Some ''/hello.txt'', f_name = Some ''hello.txt'', f_data = Some [104, 105],
         f_size = 2, f_pos = 1\<rparr>) = 1"
  by (simp add: EmbeddedFileImpl_close_def EmbeddedFileImpl_bool_def)

text \<open>
  C9, as amended. \<^verbatim>\<open>close\<close> of the reader \<^verbatim>\<open>EmbedFSFile\<close> resets it to the empty reader: data
  reference, size and position are zeroed, the boolean conversion is false, and a second
  \<^verbatim>\<open>close\<close> changes nothing. \<^verbatim>\<open>close\<close> of the file object \<^verbatim>\<open>EmbeddedFileImpl\<close> changes nothing
  at all, and so is idempotent as well.
\<close>

theorem close_resets:
  "EmbedFSFile_close f = empty_EmbedFSFile \<and>
   e_dataPtr (EmbedFSFile_close f) = None \<and>
   e_dataSize (EmbedFSFile_close f) = 0 \<and>
   e_pos (EmbedFSFile_close f) = 0 \<and>
   \<not> EmbedFSFile_bool (EmbedFSFile_close f) \<and>
   EmbedFSFile_close (EmbedFSFile_close f) = EmbedFSFile_close f \<and>
   EmbeddedFileImpl_close g = g \<and>
   EmbeddedFileImpl_close (EmbeddedFileImpl_close g) = EmbeddedFileImpl_close g"
  by (simp add: EmbedFSFile_close_def empty_EmbedFSFile_def EmbedFSFile_bool_def
      EmbeddedFileImpl_close_def)

subsection \<open>Reading\<close>

lemma copy_bytes_Suc:
  "copy_bytes src off (Suc n) buf = (copy_bytes src off n buf)[n := src ! (off + n)]"
  by (simp add: copy_bytes_def)

lemma length_copy_bytes [simp]: "length (copy_bytes src off n buf) = length buf"
  by (induction n) (simp_all add: copy_bytes_Suc, simp add: copy_bytes_def)

lemma copy_bytes_eq:
  "n \<le> length buf \<Longrightarrow> off + n \<le> length src \<Longrightarrow>
   copy_bytes src off n buf = take n (drop off src) @ drop n buf"
proof (induction n)
  case 0
  then show ?case by (simp add: copy_bytes_def)
next
  case (Suc n)
  then have ih: "copy_bytes src off n buf = take n (drop off src) @ drop n buf" by simp
  have len: "length (take n (drop off src)) = n" using Suc.prems by simp
  have d: "drop n buf = buf ! n # drop (Suc n) buf"
    using Suc.prems by (simp add: Cons_nth_drop_Suc)
  have t: "take (Suc n) (drop off src) = take n (drop off src) @ [src ! (off + n)]"
    using Suc.prems by (simp add: take_Suc_conv_app_nth)
  show ?case
    unfolding copy_bytes_Suc ih
    using Suc.prems by (subst d) (simp add: list_update_append t min_absorb2)
qed

lemma read_at_end:
  "f_size f \<le> f_pos f \<Longrightarrow> EmbeddedFileImpl_read f buf len = (0, buf, f)"
  by (simp add: EmbeddedFileImpl_read_def split: option.splits)

lemma read_null_data:
  "f_data f = None \<Longrightarrow> EmbeddedFileImpl_read f buf len = (0, buf, f)"
  by (simp add: EmbeddedFileImpl_read_def)

lemma read_count:
  assumes "f_pos f < f_size f"
  shows "unat (if len < f_size f - f_pos f then len else f_size f - f_pos f) =
           min (unat len) (unat (f_size f) - unat (f_pos f))"
proof -
  have "unat (f_size f - f_pos f) = unat (f_size f) - unat (f_pos f)"
    using assms by (intro unat_sub) simp
  then show ?thesis by (auto simp: word_less_nat_alt)
qed

lemma read_step:
  assumes wf: "unat (f_size f) \<le> length (backing f)" and b: "unat len \<le> length buf"
  defines "n \<equiv> min (unat len) (unat (f_size f) - unat (f_pos f))"
  shows "\<exists>r. EmbeddedFileImpl_read f buf len =
           (r, take n (drop (unat (f_pos f)) (backing f)) @ drop n buf,
            f\<lparr>f_pos := f_pos f + r\<rparr>) \<and>
         unat r = n \<and> unat (f_pos f + r) = unat (f_pos f) + n"
proof (cases "f_size f \<le> f_pos f")
  case True
  then have "n = 0" by (simp add: n_def word_le_nat_alt)
  with True show ?thesis by (simp add: read_at_end)
next
  case False
  then have lt: "f_pos f < f_size f" by simp
  then have "0 < unat (f_size f)" by (simp add: word_less_nat_alt)
  with wf obtain d where d: "f_data f = Some d" and bd: "backing f = d"
    by (cases "f_data f") (auto simp: backing_def)
  define r where "r = (if len < f_size f - f_pos f then len else f_size f - f_pos f)"
  have r: "unat r = n" unfolding r_def n_def by (rule read_count [OF lt])
  have le: "unat (f_pos f) + n \<le> unat (f_size f)"
    using lt by (simp add: n_def word_less_nat_alt)
  have "unat (f_pos f) + unat r < 2 ^ 32"
    using le r unsigned_less [of "f_size f", where ?'a = nat] by simp
  then have p: "unat (f_pos f + r) = unat (f_pos f) + n"
    using r by (simp add: unat_add_lem [THEN iffD1])
  have c: "copy_bytes d (unat (f_pos f)) (unat r) buf =
      take n (drop (unat (f_pos f)) d) @ drop n buf"
    unfolding r using b le wf bd by (intro copy_bytes_eq) (simp_all add: n_def)
  have "EmbeddedFileImpl_read f buf len =
      (r, copy_bytes d (unat (f_pos f)) (unat r) buf, f\<lparr>f_pos := f_pos f + r\<rparr>)"
    using False d by (simp add: EmbeddedFileImpl_read_def Let_def r_def)
  with c r p bd show ?thesis by simp
qed


lemma take_min_split:
  "take (min a m) xs @ take (min b (m - min a m)) (drop (min a m) xs) = take (min (a + b) m) xs"
proof -
  have "min a m + min b (m - min a m) = min (a + b) (m::nat)" by auto
  then show ?thesis by (metis take_add)
qed

lemma read_all_delivers:
  assumes "unat (f_size f) \<le> length (backing f)"
  shows "concat (fst (read_all f lens)) =
           take (min (sum_list (map unat lens)) (unat (f_size f) - unat (f_pos f)))
             (drop (unat (f_pos f)) (backing f)) \<and>
         f_data (snd (read_all f lens)) = f_data f \<and>
         f_size (snd (read_all f lens)) = f_size f \<and>
         unat (f_pos (snd (read_all f lens))) =
           unat (f_pos f) + min (sum_list (map unat lens)) (unat (f_size f) - unat (f_pos f))"
  using assms
proof (induction lens arbitrary: f)
  case Nil
  then show ?case by simp
next
  case (Cons len lens)
  define d where "d = backing f"
  define n where "n = min (unat len) (unat (f_size f) - unat (f_pos f))"
  define t where "t = sum_list (map unat lens)"
  have b: "unat len \<le> length (replicate (unat len) (0 :: byte))" by simp
  obtain r where
    rd: "EmbeddedFileImpl_read f (replicate (unat len) 0) len =
           (r, take n (drop (unat (f_pos f)) d) @ drop n (replicate (unat len) 0),
            f\<lparr>f_pos := f_pos f + r\<rparr>)"
    and r: "unat r = n" and p: "unat (f_pos f + r) = unat (f_pos f) + n"
    using read_step [OF Cons.prems b] unfolding n_def d_def by auto
  let ?f' = "f\<lparr>f_pos := f_pos f + r\<rparr>"
  have bk: "backing ?f' = d" by (simp add: backing_def d_def)
  have wf: "unat (f_size f) \<le> length d" using Cons.prems by (simp add: d_def)
  have ih: "concat (fst (read_all ?f' lens)) =
           take (min t (unat (f_size f) - (unat (f_pos f) + n))) (drop (unat (f_pos f) + n) d) \<and>
         f_data (snd (read_all ?f' lens)) = f_data f \<and>
         f_size (snd (read_all ?f' lens)) = f_size f \<and>
         unat (f_pos (snd (read_all ?f' lens))) =
           unat (f_pos f) + n + min t (unat (f_size f) - (unat (f_pos f) + n))"
    using Cons.IH [of ?f'] wf p by (simp add: t_def bk)
  have ln: "length (take n (drop (unat (f_pos f)) d)) = n"
    using wf by (simp add: n_def)
  have chunk: "take (unat r) (take n (drop (unat (f_pos f)) d) @ drop n (replicate (unat len) 0)) =
      take n (drop (unat (f_pos f)) d)"
    using ln by (simp add: r)
  have ra: "read_all f (len # lens) =
      (take n (drop (unat (f_pos f)) d) # fst (read_all ?f' lens), snd (read_all ?f' lens))"
    using chunk by (simp add: rd split: prod.splits)
  have sp: "take n (drop (unat (f_pos f)) d) @
        take (min t (unat (f_size f) - unat (f_pos f) - n)) (drop n (drop (unat (f_pos f)) d)) =
      take (min (unat len + t) (unat (f_size f) - unat (f_pos f))) (drop (unat (f_pos f)) d)"
    unfolding n_def by (rule take_min_split)
  have ar: "n + min t (unat (f_size f) - (unat (f_pos f) + n)) =
      min (unat len + t) (unat (f_size f) - unat (f_pos f))"
    unfolding n_def by auto
  show ?case
    unfolding ra d_def [symmetric] using ih sp ar by (simp add: t_def [symmetric] add.commute)
qed

text \<open>
  \<^verbatim>\<open>read\<close> on a well-formed file object: one whose blob holds at least the declared size.
\<close>

lemma read_well_formed:
  assumes "unat (f_size f) \<le> length (backing f)" and "unat len \<le> length buf"
  shows "(let n = min (unat len) (unat (f_size f) - unat (f_pos f)) in
          fst (EmbeddedFileImpl_read f buf len) = of_nat n \<and>
          unat (fst (EmbeddedFileImpl_read f buf len)) = n \<and>
          fst (snd (EmbeddedFileImpl_read f buf len)) =
            take n (drop (unat (f_pos f)) (backing f)) @ drop n buf \<and>
          snd (snd (EmbeddedFileImpl_read f buf len)) = f\<lparr>f_pos := f_pos f + of_nat n\<rparr> \<and>
          unat (f_pos (snd (snd (EmbeddedFileImpl_read f buf len)))) = unat (f_pos f) + n) \<and>
         (f_size f \<le> f_pos f \<longrightarrow> EmbeddedFileImpl_read f buf len = (0, buf, f)) \<and>
         (let total = sum_list (map unat lens); left = unat (f_size f) - unat (f_pos f) in
          concat (fst (read_all f lens)) = take (min total left) (drop (unat (f_pos f)) (backing f)) \<and>
          (left \<le> total \<longrightarrow>
             length (concat (fst (read_all f lens))) = left \<and>
             (\<forall>b l. EmbeddedFileImpl_read (snd (read_all f lens)) b l =
                (0, b, snd (read_all f lens)))))"
proof -
  define d where "d = backing f"
  define n where "n = min (unat len) (unat (f_size f) - unat (f_pos f))"
  obtain r where
    rd: "EmbeddedFileImpl_read f buf len =
           (r, take n (drop (unat (f_pos f)) d) @ drop n buf, f\<lparr>f_pos := f_pos f + r\<rparr>)"
    and r: "unat r = n" and p: "unat (f_pos f + r) = unat (f_pos f) + n"
    using read_step [OF assms] unfolding n_def d_def by auto
  have "of_nat (unat r) = r" by simp
  then have rn: "r = of_nat n" using r by simp
  have one: "fst (EmbeddedFileImpl_read f buf len) = of_nat n \<and>
          unat (fst (EmbeddedFileImpl_read f buf len)) = n \<and>
          fst (snd (EmbeddedFileImpl_read f buf len)) =
            take n (drop (unat (f_pos f)) d) @ drop n buf \<and>
          snd (snd (EmbeddedFileImpl_read f buf len)) = f\<lparr>f_pos := f_pos f + of_nat n\<rparr> \<and>
          unat (f_pos (snd (snd (EmbeddedFileImpl_read f buf len)))) = unat (f_pos f) + n"
    using r p by (simp add: rd) (simp add: rn)
  define total where "total = sum_list (map unat lens)"
  define left where "left = unat (f_size f) - unat (f_pos f)"
  note ra = read_all_delivers [OF assms(1), of lens, folded total_def left_def d_def]
  have many: "concat (fst (read_all f lens)) = take (min total left) (drop (unat (f_pos f)) d)"
    using ra by simp
  have fin: "length (concat (fst (read_all f lens))) = left \<and>
             (\<forall>b l. EmbeddedFileImpl_read (snd (read_all f lens)) b l =
                (0, b, snd (read_all f lens)))" if "left \<le> total"
  proof -
    have "unat (f_pos (snd (read_all f lens))) = unat (f_pos f) + left"
      using ra that by (simp add: min_absorb2)
    then have "unat (f_size f) \<le> unat (f_pos (snd (read_all f lens)))"
      by (simp add: left_def)
    then have "f_size (snd (read_all f lens)) \<le> f_pos (snd (read_all f lens))"
      using ra by (simp add: word_le_nat_alt)
    then have z: "\<forall>b l. EmbeddedFileImpl_read (snd (read_all f lens)) b l =
                (0, b, snd (read_all f lens))"
      by (simp add: read_at_end)
    have "length (concat (fst (read_all f lens))) = left"
      unfolding many using that assms(1) by (simp add: min_absorb2 left_def d_def)
    with z show ?thesis by simp
  qed
  show ?thesis
    unfolding Let_def
    using one [unfolded n_def d_def] many [unfolded total_def left_def d_def]
      fin [unfolded total_def left_def] read_at_end [of f buf len]
    by blast
qed


lemma read_all_null: "f_data f = None \<Longrightarrow> read_all f lens = (map (\<lambda>_. []) lens, f)"
  by (induction lens) (simp_all add: read_null_data)

text \<open>
  C5. The claim does not hold of a file object whose data pointer is null: \<^verbatim>\<open>read\<close> tests
  the pointer first and returns 0, whatever the size. \<^verbatim>\<open>open\<close> takes data and size of an
  entry as they are declared; for the entry \<^verbatim>\<open>/n\<close> with a null blob and the declared size 5 it
  returns a file object of size 5 at position 0, whose \<^verbatim>\<open>read\<close> of 3 bytes returns 0 and not
  the smaller of 3 and 5.
\<close>

theorem read_null_blob:
  "EmbedFSImpl_open
     \<lparr>impl_names = [Some ''/n''], impl_data = [None], impl_sizes = [5], impl_count = 1\<rparr>
     (Some ''/n'') =
     FilePtr \<lparr>f_path = Some ''/n'', f_name = Some ''n'', f_data = None, f_size = 5,
       f_pos = 0\<rparr> \<and>
   EmbeddedFileImpl_read
     \<lparr>f_path = Some ''/n'', f_name = Some ''n'', f_data = None, f_size = 5, f_pos = 0\<rparr>
     [9, 9, 9] 3 =
     (0, [9, 9, 9],
      \<lparr>f_path = Some ''/n'', f_name = Some ''n'', f_data = None, f_size = 5, f_pos = 0\<rparr>) \<and>
   min (unat (3 :: size_t)) (unat (5 :: size_t) - unat (0 :: size_t)) = 3"
  by (simp add: EmbeddedFileImpl_read_def EmbedFSImpl_open_def indices_def normalize_path_def
      erase_front_def pop_back_slashes.simps display_def new_EmbeddedFileImpl_def
      name_of_path_def Let_def)

text \<open>
  C5, as amended. For every file object with size \<open>N\<close> and position \<open>P\<close> that is bound to
  data (the blob \<open>d\<close> holding at least \<open>N\<close> bytes, the buffer at least the requested length):
  \<^verbatim>\<open>read\<close> returns \<open>n\<close>, the smaller of the requested length and \<open>N - P\<close>; the first \<open>n\<close> bytes
  of the buffer are the \<open>n\<close> bytes of \<open>d\<close> from \<open>P\<close> on, the rest of the buffer is untouched,
  and the position has advanced by \<open>n\<close>. When \<open>P\<close> is at or past \<open>N\<close> it returns 0 and changes
  nothing. A sequence of reads delivers, in order, the bytes from \<open>P\<close> on, as many as were
  requested in total but no more than \<open>N - P\<close>; once the requests reach \<open>N - P\<close>, exactly
  that many bytes have been delivered (all \<open>N\<close> for a fresh handle) and every further read
  returns 0 and changes nothing. For a file object whose data pointer is null, every read
  returns 0 and changes nothing, whatever its size and position.
\<close>

theorem read_delivers:
  "(f_data f = None \<longrightarrow>
      EmbeddedFileImpl_read f buf len = (0, buf, f) \<and>
      concat (fst (read_all f lens)) = [] \<and> snd (read_all f lens) = f) \<and>
   (f_size f \<le> f_pos f \<longrightarrow> EmbeddedFileImpl_read f buf len = (0, buf, f)) \<and>
   (\<forall>d. f_data f = Some d \<and> unat (f_size f) \<le> length d \<longrightarrow>
      (unat len \<le> length buf \<longrightarrow>
         (let n = min (unat len) (unat (f_size f) - unat (f_pos f)) in
          fst (EmbeddedFileImpl_read f buf len) = of_nat n \<and>
          unat (fst (EmbeddedFileImpl_read f buf len)) = n \<and>
          fst (snd (EmbeddedFileImpl_read f buf len)) =
            take n (drop (unat (f_pos f)) d) @ drop n buf \<and>
          snd (snd (EmbeddedFileImpl_read f buf len)) = f\<lparr>f_pos := f_pos f + of_nat n\<rparr> \<and>
          unat (f_pos (snd (snd (EmbeddedFileImpl_read f buf len)))) = unat (f_pos f) + n)) \<and>
      (let total = sum_list (map unat lens); left = unat (f_size f) - unat (f_pos f) in
       concat (fst (read_all f lens)) = take (min total left) (drop (unat (f_pos f)) d) \<and>
       (left \<le> total \<longrightarrow>
          length (concat (fst (read_all f lens))) = left \<and>
          (\<forall>b l. EmbeddedFileImpl_read (snd (read_all f lens)) b l =
             (0, b, snd (read_all f lens))))))"
proof -
  have null: "EmbeddedFileImpl_read f buf len = (0, buf, f) \<and>
      concat (fst (read_all f lens)) = [] \<and> snd (read_all f lens) = f"
    if "f_data f = None"
    using that by (simp add: read_null_data read_all_null)
  have bound1: "(let n = min (unat len) (unat (f_size f) - unat (f_pos f)) in
          fst (EmbeddedFileImpl_read f buf len) = of_nat n \<and>
          unat (fst (EmbeddedFileImpl_read f buf len)) = n \<and>
          fst (snd (EmbeddedFileImpl_read f buf len)) =
            take n (drop (unat (f_pos f)) d) @ drop n buf \<and>
          snd (snd (EmbeddedFileImpl_read f buf len)) = f\<lparr>f_pos := f_pos f + of_nat n\<rparr> \<and>
          unat (f_pos (snd (snd (EmbeddedFileImpl_read f buf len)))) = unat (f_pos f) + n)"
    if "f_data f = Some d" "unat (f_size f) \<le> length d" "unat len \<le> length buf" for d
  proof -
    have bk: "backing f = d" using that(1) by (simp add: backing_def)
    have wf: "unat (f_size f) \<le> length (backing f)" using that(2) by (simp only: bk)
    from read_well_formed [OF wf that(3)] show ?thesis unfolding bk by blast
  qed
  have bound2: "(let total = sum_list (map unat lens); left = unat (f_size f) - unat (f_pos f) in
       concat (fst (read_all f lens)) = take (min total left) (drop (unat (f_pos f)) d) \<and>
       (left \<le> total \<longrightarrow>
          length (concat (fst (read_all f lens))) = left \<and>
          (\<forall>b l. EmbeddedFileImpl_read (snd (read_all f lens)) b l =
             (0, b, snd (read_all f lens)))))"
    if "f_data f = Some d" "unat (f_size f) \<le> length d" for d
  proof -
    have bk: "backing f = d" using that(1) by (simp add: backing_def)
    have wf: "unat (f_size f) \<le> length (backing f)" using that(2) by (simp only: bk)
    have b0: "unat (0 :: size_t) \<le> length ([] :: byte list)" by simp
    from read_well_formed [OF wf b0, of lens] show ?thesis unfolding bk by blast
  qed
  from null bound1 bound2 read_at_end [of f buf len] show ?thesis by blast
qed

theorem read_delivers_witness:
  "EmbeddedFileImpl_read
     \<lparr>f_path = Some ''/f'', f_name = Some ''f'', f_data = Some [1, 2, 3, 4, 5], f_size = 5,
      f_pos = 1\<rparr> [9, 9, 9, 9, 9, 9] 3 =
     (3, [2, 3, 4, 9, 9, 9],
      \<lparr>f_path = Some ''/f'', f_name = Some ''f'', f_data = Some [1, 2, 3, 4, 5], f_size = 5,
       f_pos = 4\<rparr>) \<and>
   concat (fst (read_all
     \<lparr>f_path = Some ''/f'', f_name = Some ''f'', f_data = Some [1, 2, 3, 4, 5], f_size = 5,
      f_pos = 0\<rparr> [2, 7, 1])) = [1, 2, 3, 4, 5] \<and>
   EmbeddedFileImpl_read (snd (read_all
     \<lparr>f_path = Some ''/f'', f_name = Some ''f'', f_data = Some [1, 2, 3, 4, 5], f_size = 5,
      f_pos = 0\<rparr> [2, 7, 1])) [9, 9] 2 =
     (0, [9, 9], snd (read_all
     \<lparr>f_path = Some ''/f'', f_name = Some ''f'', f_data = Some [1, 2, 3, 4, 5], f_size = 5,
      f_pos = 0\<rparr> [2, 7, 1])) \<and>
   EmbeddedFileImpl_read
     \<lparr>f_path = Some ''/n'', f_name = Some ''n'', f_data = None, f_size = 5, f_pos = 0\<rparr>
     [9, 9] 2 =
     (0, [9, 9],
      \<lparr>f_path = Some ''/n'', f_name = Some ''n'', f_data = None, f_size = 5, f_pos = 0\<rparr>)"
proof -
  let ?f = "\<lparr>f_path = Some ''/f'', f_name = Some ''f'', f_data = Some [1, 2, 3, 4, 5],
    f_size = 5, f_pos = 1\<rparr>"
  let ?g = "\<lparr>f_path = Some ''/f'', f_name = Some ''f'', f_data = Some [1, 2, 3, 4, 5],
    f_size = 5, f_pos = 0\<rparr>"
  let ?e = "\<lparr>f_path = Some ''/n'', f_name = Some ''n'', f_data = None, f_size = 5,
    f_pos = 0\<rparr>"
  have hf: "f_data ?f = Some [1, 2, 3, 4, 5] \<and> unat (f_size ?f) \<le> length [1, 2, 3, 4, 5 :: byte]"
    by simp
  have hg: "f_data ?g = Some [1, 2, 3, 4, 5] \<and> unat (f_size ?g) \<le> length [1, 2, 3, 4, 5 :: byte]"
    by simp
  have he: "f_data ?e = None" by simp
  have h3: "unat (3 :: size_t) \<le> length [9, 9, 9, 9, 9, 9 :: byte]" by simp
  note tf = read_delivers [where f = ?f and buf = "[9, 9, 9, 9, 9, 9]" and len = 3
      and lens = "[]"]
  note tg = read_delivers [where f = ?g and buf = "[9, 9]" and len = 2 and lens = "[2, 7, 1]"]
  note te = read_delivers [where f = ?e and buf = "[9, 9]" and len = 2 and lens = "[]"]
  have r1: "EmbeddedFileImpl_read ?f [9, 9, 9, 9, 9, 9] 3 =
     (3, [2, 3, 4, 9, 9, 9], ?f\<lparr>f_pos := 4\<rparr>)"
    using tf hf h3 by (simp add: Let_def prod_eq_iff)
  have r2: "concat (fst (read_all ?g [2, 7, 1])) = [1, 2, 3, 4, 5]"
    using tg hg by (simp add: Let_def)
  have r3: "EmbeddedFileImpl_read (snd (read_all ?g [2, 7, 1])) [9, 9] 2 =
     (0, [9, 9], snd (read_all ?g [2, 7, 1]))"
    using tg hg by (simp add: Let_def)
  have r4: "EmbeddedFileImpl_read ?e [9, 9] 2 = (0, [9, 9], ?e)"
    using te he by simp
  from r1 r2 r3 r4 show ?thesis by simp
qed

subsection \<open>The two variants of exists\<close>

lemma find_strcmp_find_exact:
  "find_strcmp nms q idxs \<noteq> None \<Longrightarrow> find_exact nms (normalize_path q) idxs \<noteq> None"
  by (induction idxs) (auto split: option.splits if_splits)

text \<open>
  C10. The two variants are not equivalent: the minimal one compares the raw names with the
  raw path, the full one normalises both and accepts directory prefixes and the root. With
  the entries \<^verbatim>\<open>/hello.txt\<close> and \<^verbatim>\<open>/dir/inner.txt\<close>, the path \<^verbatim>\<open>/dir\<close> exists for the full
  variant and not for the minimal one.
\<close>

theorem exists_variants_differ:
  "EmbedFSImpl_min_exists
     \<lparr>impl_names = [Some ''/hello.txt'', Some ''/dir/inner.txt''],
      impl_data = [Some [104, 105], Some [121, 111]], impl_sizes = [2, 2], impl_count = 2\<rparr>
     ''/dir'' \<noteq>
   EmbedFSImpl_exists
     \<lparr>impl_names = [Some ''/hello.txt'', Some ''/dir/inner.txt''],
      impl_data = [Some [104, 105], Some [121, 111]], impl_sizes = [2, 2], impl_count = 2\<rparr>
     (Some ''/dir'')"
  by (simp add: EmbedFSImpl_min_exists_def EmbedFSImpl_exists_def indices_def upt_conv_Cons
      normalize_path_def erase_front_def pop_back_slashes.simps)

text \<open>
  C10, as amended. The full variant accepts every path the minimal variant accepts: for
  every entry list and every path, when the minimal \<^verbatim>\<open>exists\<close> returns true, so does the full
  one.
\<close>

theorem min_exists_implies_exists:
  "EmbedFSImpl_min_exists impl q \<Longrightarrow> EmbedFSImpl_exists impl (Some q)"
  using find_strcmp_find_exact [of "impl_names impl" q "indices impl"]
  by (simp add: EmbedFSImpl_min_exists_def EmbedFSImpl_exists_def Let_def)

theorem min_exists_implies_exists_witness:
  "EmbedFSImpl_min_exists
     \<lparr>impl_names = [Some ''/hello.txt'', Some ''/dir/inner.txt''],
      impl_data = [Some [104, 105], Some [121, 111]], impl_sizes = [2, 2], impl_count = 2\<rparr>
     ''/dir/inner.txt'' \<and>
   EmbedFSImpl_exists
     \<lparr>impl_names = [Some ''/hello.txt'', Some ''/dir/inner.txt''],
      impl_data = [Some [104, 105], Some [121, 111]], impl_sizes = [2, 2], impl_count = 2\<rparr>
     (Some ''/dir/inner.txt'')"
proof -
  have m: "EmbedFSImpl_min_exists
     \<lparr>impl_names = [Some ''/hello.txt'', Some ''/dir/inner.txt''],
      impl_data = [Some [104, 105], Some [121, 111]], impl_sizes = [2, 2], impl_count = 2\<rparr>
     ''/dir/inner.txt''"
    by (simp add: EmbedFSImpl_min_exists_def indices_def upt_conv_Cons)
  from m min_exists_implies_exists [OF m] show ?thesis by simp
qed

subsection \<open>Exact matches\<close>

lemma find_exact_find:
  "find_exact (impl_names impl) p idxs = List.find (exact_at impl p) idxs"
  by (induction idxs) (auto simp: exact_at_def split: option.splits)

lemma find_exact_Some:
  "find_exact (impl_names impl) p (indices impl) = Some k \<longleftrightarrow>
     k < unat (impl_count impl) \<and> exact_at impl p k \<and> (\<forall>i<k. \<not> exact_at impl p i)"
  unfolding find_exact_find indices_def find_Some_iff by auto

lemma find_exact_None:
  "find_exact (impl_names impl) p (indices impl) = None \<longleftrightarrow>
     (\<forall>i<unat (impl_count impl). \<not> exact_at impl p i)"
  unfolding find_exact_find indices_def find_None_iff by auto

lemma first_exact:
  fixes P :: "nat \<Rightarrow> bool"
  assumes "P j"
  shows "\<exists>k\<le>j. P k \<and> (\<forall>i<k. \<not> P i)"
proof -
  have "P (LEAST k. P k)" using assms by (rule LeastI)
  moreover have "(LEAST k. P k) \<le> j" using assms by (rule Least_le)
  moreover have "\<forall>i<(LEAST k. P k). \<not> P i" using not_less_Least by blast
  ultimately show ?thesis by blast
qed

lemma open_at_first_exact:
  assumes "j < unat (impl_count impl)" and "exact_at impl (normalize_path q) j"
  shows "\<exists>k\<le>j. exact_at impl (normalize_path q) k \<and>
           (\<forall>i<k. \<not> exact_at impl (normalize_path q) i) \<and>
           EmbedFSImpl_open impl (Some q) =
             FilePtr (new_EmbeddedFileImpl (Some (display (normalize_path q)))
               (impl_data impl ! k) (impl_sizes impl ! k))"
proof -
  obtain k where k: "k \<le> j" "exact_at impl (normalize_path q) k"
    "\<forall>i<k. \<not> exact_at impl (normalize_path q) i"
    using first_exact [of "exact_at impl (normalize_path q)" j] assms(2) by blast
  then have "find_exact (impl_names impl) (normalize_path q) (indices impl) = Some k"
    using assms(1) by (simp add: find_exact_Some)
  then have "EmbedFSImpl_open impl (Some q) =
      FilePtr (new_EmbeddedFileImpl (Some (display (normalize_path q)))
        (impl_data impl ! k) (impl_sizes impl ! k))"
    by (simp add: EmbedFSImpl_open_def Let_def)
  with k show ?thesis by auto
qed

text \<open>
  C2. When some entry has a name that normalises to the normalised query, \<^verbatim>\<open>open\<close> returns a
  file object bound to the data and the size of the first such entry in index order, at
  position 0 and under the display path of the query, and never a directory object, whatever
  the other entries are.
\<close>

theorem open_exact_match:
  assumes "j < unat (impl_count impl)" and "exact_at impl (normalize_path q) j"
  shows "\<exists>k\<le>j. exact_at impl (normalize_path q) k \<and>
           (\<forall>i<k. \<not> exact_at impl (normalize_path q) i) \<and>
           EmbedFSImpl_open impl (Some q) =
             FilePtr (new_EmbeddedFileImpl (Some (display (normalize_path q)))
               (impl_data impl ! k) (impl_sizes impl ! k)) \<and>
           EmbedFSImpl_open impl (Some q) =
             FilePtr \<lparr>f_path = Some (display (normalize_path q)),
               f_name = name_of_path (Some (display (normalize_path q))),
               f_data = impl_data impl ! k, f_size = impl_sizes impl ! k, f_pos = 0\<rparr> \<and>
           (\<exists>f. EmbedFSImpl_open impl (Some q) = FilePtr f \<and>
              f_data f = impl_data impl ! k \<and> f_size f = impl_sizes impl ! k \<and> f_pos f = 0) \<and>
           (\<forall>d. EmbedFSImpl_open impl (Some q) \<noteq> DirPtr d)"
proof -
  obtain k where k: "k \<le> j" "exact_at impl (normalize_path q) k"
    "\<forall>i<k. \<not> exact_at impl (normalize_path q) i"
    and o: "EmbedFSImpl_open impl (Some q) =
      FilePtr (new_EmbeddedFileImpl (Some (display (normalize_path q)))
        (impl_data impl ! k) (impl_sizes impl ! k))"
    using open_at_first_exact [OF assms] by blast
  have r: "EmbedFSImpl_open impl (Some q) =
      FilePtr \<lparr>f_path = Some (display (normalize_path q)),
        f_name = name_of_path (Some (display (normalize_path q))),
        f_data = impl_data impl ! k, f_size = impl_sizes impl ! k, f_pos = 0\<rparr>"
    using o by (simp add: new_EmbeddedFileImpl_def)
  have f: "\<exists>f. EmbedFSImpl_open impl (Some q) = FilePtr f \<and>
      f_data f = impl_data impl ! k \<and> f_size f = impl_sizes impl ! k \<and> f_pos f = 0"
    using r by simp
  have nd: "\<forall>d. EmbedFSImpl_open impl (Some q) \<noteq> DirPtr d" using r by simp
  from k o r f nd show ?thesis by blast
qed

theorem open_exact_match_witness:
  "EmbedFSImpl_open
     \<lparr>impl_names = [Some ''/hello.txt'', Some ''dir/sub/x'', Some ''dir/sub/'', Some ''/dir/sub''],
      impl_data = [Some [1], Some [2, 2], Some [3, 3, 3], Some [4, 4, 4, 4]],
      impl_sizes = [1, 2, 3, 4], impl_count = 4\<rparr> (Some ''/dir/sub/'') =
   FilePtr \<lparr>f_path = Some ''/dir/sub'', f_name = Some ''sub'', f_data = Some [3, 3, 3],
     f_size = 3, f_pos = 0\<rparr>"
proof -
  let ?impl = "\<lparr>impl_names = [Some ''/hello.txt'', Some ''dir/sub/x'', Some ''dir/sub/'',
      Some ''/dir/sub''],
    impl_data = [Some [1], Some [2, 2], Some [3, 3, 3], Some [4, 4, 4, 4 :: byte]],
    impl_sizes = [1, 2, 3, 4], impl_count = 4\<rparr>"
  have q: "normalize_path ''/dir/sub/'' = ''dir/sub''"
    by (simp add: normalize_path_def erase_front_def pop_back_slashes.simps)
  have e0: "\<not> exact_at ?impl ''dir/sub'' 0" and e1: "\<not> exact_at ?impl ''dir/sub'' 1"
    and e3: "exact_at ?impl ''dir/sub'' 3"
    by (simp_all add: exact_at_def normalize_path_def erase_front_def pop_back_slashes.simps)
  have h1: "3 < unat (impl_count ?impl)" by simp
  have h2: "exact_at ?impl (normalize_path ''/dir/sub/'') 3" using e3 by (simp only: q)
  obtain k where k: "k \<le> 3" "exact_at ?impl ''dir/sub'' k"
    "\<forall>i<k. \<not> exact_at ?impl ''dir/sub'' i"
    and r: "EmbedFSImpl_open ?impl (Some ''/dir/sub/'') =
      FilePtr \<lparr>f_path = Some (display ''dir/sub''),
        f_name = name_of_path (Some (display ''dir/sub'')),
        f_data = impl_data ?impl ! k, f_size = impl_sizes ?impl ! k, f_pos = 0\<rparr>"
    using open_exact_match [OF h1 h2] unfolding q by blast
  have e2: "exact_at ?impl ''dir/sub'' 2"
    by (simp add: exact_at_def normalize_path_def erase_front_def pop_back_slashes.simps)
  have "\<not> 2 < k" using k(3) e2 by blast
  moreover have "k \<noteq> 0"
  proof
    assume "k = 0"
    with k(2) have "exact_at ?impl ''dir/sub'' 0" by (simp only:)
    with e0 show False ..
  qed
  moreover have "k \<noteq> 1"
  proof
    assume "k = 1"
    with k(2) have "exact_at ?impl ''dir/sub'' 1" by (simp only:)
    with e1 show False ..
  qed
  ultimately have "k = 2" by linarith
  with r show ?thesis
    by (simp add: display_def name_of_path_def)
qed

subsection \<open>Directory synthesis\<close>

text \<open>
  The second loop of \<^verbatim>\<open>open\<close> adds, for each index, the child the entry contributes; the
  vector it builds is the deduplicated list of the reference definition.
\<close>

lemma find_char_None: "find_char c s = None \<longleftrightarrow> c \<notin> set s"
  by (induction s) auto

lemma find_char_ex: "(\<exists>k. find_char c s = Some k) \<longleftrightarrow> c \<in> set s"
  using find_char_None [of c s] by auto

lemma find_char_Some: "find_char c s = Some k \<Longrightarrow> take k s = takeWhile (\<lambda>x. x \<noteq> c) s"
  by (induction s arbitrary: k) (auto split: if_splits)

lemma child_segment:
  "(case find_char c s of Some k \<Rightarrow> take k s | None \<Rightarrow> s) = takeWhile (\<lambda>x. x \<noteq> c) s"
proof (cases "find_char c s")
  case None
  then have "c \<notin> set s" by (simp add: find_char_None)
  then have "takeWhile (\<lambda>x. x \<noteq> c) s = s" by (induction s) auto
  then show ?thesis by (simp only: None option.case)
next
  case (Some k)
  then show ?thesis by (simp add: find_char_Some)
qed

lemma scan_step_occurrence:
  "scan_step nms p (if p = [] then [] else p @ ''/'') i acc =
     (case (case nms ! i of None \<Rightarrow> None
            | Some nm \<Rightarrow> child_occurrence p (normalize_path nm)) of
        None \<Rightarrow> acc
      | Some (n, d) \<Rightarrow> addUnique acc n d)"
proof (cases "nms ! i")
  case None
  then show ?thesis by (simp add: scan_step_def)
next
  case (Some nm)
  show ?thesis
  proof (cases "p = []")
    case True
    with Some show ?thesis
      by (simp add: scan_step_def child_occurrence_def Let_def child_segment find_char_ex)
  next
    case False
    with Some show ?thesis
      by (auto simp: scan_step_def child_occurrence_def Let_def child_segment find_char_ex)
  qed
qed

lemma fold_scan_step:
  "fold (scan_step nms p (if p = [] then [] else p @ ''/'')) idxs acc =
     fold (\<lambda>(n, d) a. addUnique a n d) (occurrences nms p idxs) acc"
proof (induction idxs arbitrary: acc)
  case Nil
  then show ?case by (simp add: occurrences_def)
next
  case (Cons i idxs)
  show ?case
    using Cons.IH
    by (simp add: occurrences_def scan_step_occurrence split: option.splits prod.splits)
qed

lemma first_seen_snoc:
  "first_seen (xs @ [x]) = (if x \<in> set xs then first_seen xs else first_seen xs @ [x])"
  by (simp add: first_seen_def)

lemma set_first_seen [simp]: "set (first_seen xs) = set xs"
  by (simp add: first_seen_def)

lemma distinct_first_seen [simp]: "distinct (first_seen xs)"
  by (simp add: first_seen_def)

lemma first_seen_Nil [simp]: "first_seen [] = []"
  by (simp add: first_seen_def)

lemma addUnique_map:
  "distinct ms \<Longrightarrow>
   addUnique (map (\<lambda>m. \<lparr>path = m, isDir = g m\<rparr>) ms) n d =
     (if n \<in> set ms then map (\<lambda>m. \<lparr>path = m, isDir = (g m \<or> (m = n \<and> d))\<rparr>) ms
      else map (\<lambda>m. \<lparr>path = m, isDir = g m\<rparr>) ms @ [\<lparr>path = n, isDir = d\<rparr>])"
  by (induction ms) auto

lemma fold_addUnique:
  "fold (\<lambda>(n, d) a. addUnique a n d) occ [] = dedup_children occ"
proof (induction occ rule: rev_induct)
  case Nil
  then show ?case by (simp add: dedup_children_def)
next
  case (snoc x occ)
  obtain n d where x: "x = (n, d)" by (cases x)
  let ?g = "\<lambda>m. (m, True) \<in> set occ"
  have notin: "n \<notin> fst ` set occ \<Longrightarrow> \<not> ?g n" by force
  have "fold (\<lambda>(n, d) a. addUnique a n d) (occ @ [x]) [] =
      addUnique (map (\<lambda>m. \<lparr>path = m, isDir = ?g m\<rparr>) (first_seen (map fst occ))) n d"
    using snoc by (simp add: x dedup_children_def)
  also have "\<dots> = dedup_children (occ @ [x])"
    using notin
    by (subst addUnique_map) (auto simp: dedup_children_def first_seen_snoc x)
  finally show ?case .
qed

lemma scan_children_of:
  "fold (scan_step (impl_names impl) p (if p = [] then [] else p @ ''/'')) (indices impl) [] =
     children_of impl p"
  by (simp add: fold_scan_step fold_addUnique children_of_def)

lemma open_no_exact:
  assumes "\<forall>i<unat (impl_count impl). \<not> exact_at impl (normalize_path q) i"
  shows "EmbedFSImpl_open impl (Some q) =
           (if children_of impl (normalize_path q) \<noteq> [] \<or> normalize_path q = []
            then DirPtr (new_EmbeddedDirImpl (Some (display (normalize_path q))) (Some impl)
                   (children_of impl (normalize_path q)))
            else NullPtr)"
proof -
  have "find_exact (impl_names impl) (normalize_path q) (indices impl) = None"
    using assms by (simp add: find_exact_None)
  then show ?thesis
    by (simp add: EmbedFSImpl_open_def Let_def scan_children_of)
qed


lemma first_seen_Cons: "first_seen (x # xs) = x # first_seen (removeAll x xs)"
proof (induction xs rule: rev_induct)
  case Nil
  then show ?case by (simp add: first_seen_def)
next
  case (snoc y xs)
  have "first_seen (x # xs @ [y]) = first_seen ((x # xs) @ [y])" by simp
  also have "\<dots> = (if y \<in> set (x # xs) then first_seen (x # xs) else first_seen (x # xs) @ [y])"
    by (rule first_seen_snoc)
  finally show ?case using snoc by (auto simp: first_seen_snoc)
qed

lemma children_of_names:
  "map path (children_of impl p) = first_seen (map fst (occurrences (impl_names impl) p (indices impl)))"
  by (simp add: children_of_def dedup_children_def comp_def)

lemma children_of_isDir:
  "e \<in> set (children_of impl p) \<Longrightarrow>
   isDir e = ((path e, True) \<in> set (occurrences (impl_names impl) p (indices impl)))"
  by (auto simp: children_of_def dedup_children_def)

text \<open>
  C1. As stated the claim fails for a path that matches no entry and is the prefix of none:
  \<^verbatim>\<open>open\<close> then returns the null pointer, not a directory object. With the single entry
  \<^verbatim>\<open>/hello.txt\<close>, \<^verbatim>\<open>/missing\<close> matches no entry exactly and \<^verbatim>\<open>open\<close> returns null.
\<close>

theorem open_directory_counterexample:
  "\<not> exact_at
      \<lparr>impl_names = [Some ''/hello.txt''], impl_data = [Some [104, 105]], impl_sizes = [2],
       impl_count = 1\<rparr> (normalize_path ''/missing'') 0 \<and>
   EmbedFSImpl_open
     \<lparr>impl_names = [Some ''/hello.txt''], impl_data = [Some [104, 105]], impl_sizes = [2],
      impl_count = 1\<rparr> (Some ''/missing'') = NullPtr"
  by (simp add: exact_at_def EmbedFSImpl_open_def indices_def normalize_path_def erase_front_def
      pop_back_slashes.simps display_def scan_step_def Let_def)

text \<open>
  C1, as amended. For every query path that matches no entry exactly, \<^verbatim>\<open>open\<close> returns a
  directory object when at least one child was found or the query is the root, and the null
  pointer otherwise. The children are those of \<open>children_of\<close>: every entry whose normalised
  path starts with the normalised query and a slash and is longer (for the root: every entry
  with a non-empty normalised path) contributes its next segment, as a directory exactly
  when a slash follows the segment; the list holds each child path once, in the order of
  first occurrence in the entry index, as a directory exactly when some occurrence is one.
  Given only the entry \<^verbatim>\<open>/a/b/c.txt\<close>, \<^verbatim>\<open>open("/a")\<close> is a directory with the single child
  \<^verbatim>\<open>/a/b\<close>, a directory.
\<close>

theorem open_directory:
  "((\<forall>i<unat (impl_count impl). \<not> exact_at impl (normalize_path q) i) \<longrightarrow>
      EmbedFSImpl_open impl (Some q) =
        (if children_of impl (normalize_path q) \<noteq> [] \<or> normalize_path q = []
         then DirPtr (new_EmbeddedDirImpl (Some (display (normalize_path q))) (Some impl)
                (children_of impl (normalize_path q)))
         else NullPtr)) \<and>
   map path (children_of impl (normalize_path q)) =
     first_seen (map fst (occurrences (impl_names impl) (normalize_path q) (indices impl))) \<and>
   distinct (map path (children_of impl (normalize_path q))) \<and>
   (\<forall>e\<in>set (children_of impl (normalize_path q)).
      isDir e =
        ((path e, True) \<in> set (occurrences (impl_names impl) (normalize_path q) (indices impl)))) \<and>
   EmbedFSImpl_open
     \<lparr>impl_names = [Some ''/a/b/c.txt''], impl_data = [Some [99]], impl_sizes = [1],
      impl_count = 1\<rparr> (Some ''/a'') =
     DirPtr \<lparr>d_path = Some ''/a'', d_name = Some ''a'',
       d_owner = Some \<lparr>impl_names = [Some ''/a/b/c.txt''], impl_data = [Some [99]],
         impl_sizes = [1], impl_count = 1\<rparr>,
       d_entries = [\<lparr>path = ''/a/b'', isDir = True\<rparr>], d_index = 0\<rparr>"
proof -
  have ex: "EmbedFSImpl_open
     \<lparr>impl_names = [Some ''/a/b/c.txt''], impl_data = [Some [99]], impl_sizes = [1],
      impl_count = 1\<rparr> (Some ''/a'') =
     DirPtr \<lparr>d_path = Some ''/a'', d_name = Some ''a'',
       d_owner = Some \<lparr>impl_names = [Some ''/a/b/c.txt''], impl_data = [Some [99]],
         impl_sizes = [1], impl_count = 1\<rparr>,
       d_entries = [\<lparr>path = ''/a/b'', isDir = True\<rparr>], d_index = 0\<rparr>"
    by (simp add: EmbedFSImpl_open_def indices_def normalize_path_def erase_front_def
        pop_back_slashes.simps display_def scan_step_def new_EmbeddedDirImpl_def
        name_of_path_def Let_def)
  have d: "distinct (map path (children_of impl (normalize_path q)))"
    by (simp add: children_of_names)
  show ?thesis
    using open_no_exact [of impl q] children_of_names [of impl "normalize_path q"]
      children_of_isDir [of _ impl "normalize_path q"] d ex
    by blast
qed

theorem open_directory_witness:
  "EmbedFSImpl_open
     \<lparr>impl_names = [Some ''/hello.txt'', Some ''/dir/inner.txt'', None, Some ''/dir/sub'',
        Some ''dir/sub/x''],
      impl_data = [Some [104, 105], Some [121, 111], None, Some [], Some [120]],
      impl_sizes = [2, 2, 0, 0, 1], impl_count = 5\<rparr> (Some ''/dir/'') =
     DirPtr \<lparr>d_path = Some ''/dir'', d_name = Some ''dir'',
       d_owner = Some \<lparr>impl_names = [Some ''/hello.txt'', Some ''/dir/inner.txt'', None,
           Some ''/dir/sub'', Some ''dir/sub/x''],
         impl_data = [Some [104, 105], Some [121, 111], None, Some [], Some [120]],
         impl_sizes = [2, 2, 0, 0, 1], impl_count = 5\<rparr>,
       d_entries = [\<lparr>path = ''/dir/inner.txt'', isDir = False\<rparr>,
         \<lparr>path = ''/dir/sub'', isDir = True\<rparr>],
       d_index = 0\<rparr>"
proof -
  let ?impl = "\<lparr>impl_names = [Some ''/hello.txt'', Some ''/dir/inner.txt'', None,
      Some ''/dir/sub'', Some ''dir/sub/x''],
    impl_data = [Some [104, 105], Some [121, 111], None, Some [], Some [120 :: byte]],
    impl_sizes = [2, 2, 0, 0, 1], impl_count = 5\<rparr>"
  have q: "normalize_path ''/dir/'' = ''dir''"
    by (simp add: normalize_path_def erase_front_def pop_back_slashes.simps)
  have c: "unat (impl_count ?impl) = Suc (Suc (Suc (Suc (Suc 0))))" by simp
  have h: "\<forall>i<unat (impl_count ?impl). \<not> exact_at ?impl (normalize_path ''/dir/'') i"
    unfolding c q
    by (simp add: All_less_Suc exact_at_def normalize_path_def erase_front_def
        pop_back_slashes.simps)
  have ch: "children_of ?impl ''dir'' =
      [\<lparr>path = ''/dir/inner.txt'', isDir = False\<rparr>, \<lparr>path = ''/dir/sub'', isDir = True\<rparr>]"
    by (simp add: children_of_def dedup_children_def occurrences_def indices_def upt_conv_Cons
        child_occurrence_def first_seen_def normalize_path_def erase_front_def
        pop_back_slashes.simps Let_def)
  from open_directory [of ?impl "''/dir/''"] h
  have "EmbedFSImpl_open ?impl (Some ''/dir/'') =
      DirPtr (new_EmbeddedDirImpl (Some (display ''dir'')) (Some ?impl) (children_of ?impl ''dir''))"
    unfolding q ch by simp
  then show ?thesis
    unfolding ch by (simp add: new_EmbeddedDirImpl_def display_def name_of_path_def)
qed

subsection \<open>The root\<close>

text \<open>
  C3. The claim fails for an entry list with an entry whose name normalises to the empty
  string (the names \<^verbatim>\<open>/\<close> and the empty name do): the exact match comes first in \<^verbatim>\<open>open\<close>,
  so \<^verbatim>\<open>open("/")\<close> returns a file object bound to that entry, not a directory object.
\<close>

theorem root_is_file_counterexample:
  "fst (EmbedFSFS_begin new_EmbedFSFS (Some [Some ''/'']) (Some [Some [1]]) (Some [1]) 1) \<and>
   EmbedFSFS_open
     (snd (EmbedFSFS_begin new_EmbedFSFS (Some [Some ''/'']) (Some [Some [1]]) (Some [1]) 1))
     (Some ''/'') =
     FilePtr \<lparr>f_path = Some ''/'', f_name = Some ''/'', f_data = Some [1], f_size = 1,
       f_pos = 0\<rparr>"
  by (simp add: EmbedFSFS_begin_def new_EmbedFSFS_def EmbedFSFS_open_def EmbedFSImpl_open_def
      indices_def normalize_path_def erase_front_def pop_back_slashes.simps display_def
      new_EmbeddedFileImpl_def name_of_path_def Let_def)

text \<open>
  C3, as amended. After a successful \<^verbatim>\<open>begin\<close>, for every entry list, \<^verbatim>\<open>exists("/")\<close> is true
  and \<^verbatim>\<open>open("/")\<close> is never the null pointer. When no entry has a name that normalises to
  the empty string, \<^verbatim>\<open>open("/")\<close> is a valid directory object that holds the top-level
  children, which may be none; when some entry has, it is a file object bound to the data
  and the size of the first such entry.
\<close>

theorem root_after_begin:
  assumes "EmbedFSFS_begin s ns ds zs c = (True, s')"
  shows "\<exists>impl. fs_impl s' = Some impl \<and> impl_count impl = c \<and> ns = Some (impl_names impl) \<and>
     ds = Some (impl_data impl) \<and> zs = Some (impl_sizes impl) \<and>
     EmbedFSFS_exists s' (Some ''/'') \<and>
     EmbedFSFS_open s' (Some ''/'') \<noteq> NullPtr \<and>
     ((\<forall>i<unat c. \<not> exact_at impl [] i) \<longrightarrow>
        EmbedFSFS_open s' (Some ''/'') =
          DirPtr (new_EmbeddedDirImpl (Some ''/'') (Some impl) (children_of impl [])) \<and>
        EmbedFSFS_open s' (Some ''/'') =
          DirPtr \<lparr>d_path = Some ''/'', d_name = Some ''/'', d_owner = Some impl,
            d_entries = children_of impl [], d_index = 0\<rparr> \<and>
        File_bool (EmbedFSFS_open s' (Some ''/''))) \<and>
     (\<forall>j<unat c. exact_at impl [] j \<longrightarrow>
        (\<exists>k\<le>j. exact_at impl [] k \<and> (\<forall>i<k. \<not> exact_at impl [] i) \<and>
           EmbedFSFS_open s' (Some ''/'') =
             FilePtr \<lparr>f_path = Some ''/'', f_name = Some ''/'', f_data = impl_data impl ! k,
               f_size = impl_sizes impl ! k, f_pos = 0\<rparr>))"
proof -
  obtain n d z where a: "ns = Some n" "ds = Some d" "zs = Some z" "c \<noteq> 0"
    using assms by (auto simp: EmbedFSFS_begin_def split: option.splits if_splits)
  define impl where "impl = \<lparr>impl_names = n, impl_data = d, impl_sizes = z, impl_count = c\<rparr>"
  have s': "fs_impl s' = Some impl"
    using assms a by (auto simp: EmbedFSFS_begin_def impl_def)
  have r: "normalize_path ''/'' = []"
    by (simp add: normalize_path_def erase_front_def)
  have ex: "EmbedFSFS_exists s' (Some ''/'')"
    by (simp add: EmbedFSFS_exists_def s' EmbedFSImpl_exists_def r)
  have op: "EmbedFSFS_open s' (Some ''/'') = EmbedFSImpl_open impl (Some ''/'')"
    by (simp add: EmbedFSFS_open_def s')
  have dir: "EmbedFSFS_open s' (Some ''/'') =
          DirPtr (new_EmbeddedDirImpl (Some ''/'') (Some impl) (children_of impl [])) \<and>
        EmbedFSFS_open s' (Some ''/'') =
          DirPtr \<lparr>d_path = Some ''/'', d_name = Some ''/'', d_owner = Some impl,
            d_entries = children_of impl [], d_index = 0\<rparr> \<and>
        File_bool (EmbedFSFS_open s' (Some ''/''))"
    if "\<forall>i<unat c. \<not> exact_at impl [] i"
  proof -
    have "\<forall>i<unat (impl_count impl). \<not> exact_at impl (normalize_path ''/'') i"
      using that by (simp add: r impl_def)
    from open_no_exact [OF this] show ?thesis
      by (simp add: op r display_def File_bool_def EmbeddedDirImpl_bool_def
          new_EmbeddedDirImpl_def name_of_path_def)
  qed
  have isfile: "\<exists>k\<le>j. exact_at impl [] k \<and> (\<forall>i<k. \<not> exact_at impl [] i) \<and>
           EmbedFSFS_open s' (Some ''/'') =
             FilePtr \<lparr>f_path = Some ''/'', f_name = Some ''/'', f_data = impl_data impl ! k,
               f_size = impl_sizes impl ! k, f_pos = 0\<rparr>"
    if "j < unat c" "exact_at impl [] j" for j
  proof -
    have "j < unat (impl_count impl)" "exact_at impl (normalize_path ''/'') j"
      using that by (simp_all add: r impl_def)
    from open_at_first_exact [OF this] obtain k where k: "k \<le> j" "exact_at impl [] k"
      "\<forall>i<k. \<not> exact_at impl [] i"
      and o: "EmbedFSImpl_open impl (Some ''/'') =
        FilePtr (new_EmbeddedFileImpl (Some (display (normalize_path ''/'')))
          (impl_data impl ! k) (impl_sizes impl ! k))"
      unfolding r by blast
    have "EmbedFSFS_open s' (Some ''/'') =
        FilePtr \<lparr>f_path = Some ''/'', f_name = Some ''/'', f_data = impl_data impl ! k,
          f_size = impl_sizes impl ! k, f_pos = 0\<rparr>"
      using o by (simp add: op r display_def new_EmbeddedFileImpl_def name_of_path_def)
    with k show ?thesis by blast
  qed
  have nn: "EmbedFSFS_open s' (Some ''/'') \<noteq> NullPtr"
  proof (cases "\<forall>i<unat c. \<not> exact_at impl [] i")
    case True
    with dir show ?thesis by simp
  next
    case False
    then obtain j where "j < unat c" "exact_at impl [] j" by blast
    from isfile [OF this] show ?thesis by auto
  qed
  have "impl_count impl = c" "ns = Some (impl_names impl)" "ds = Some (impl_data impl)"
    "zs = Some (impl_sizes impl)"
    by (simp_all add: impl_def a)
  with s' ex nn dir isfile show ?thesis by blast
qed

theorem root_after_begin_witness:
  "EmbedFSFS_exists
     (snd (EmbedFSFS_begin new_EmbedFSFS (Some [None, Some ''a/x'', Some ''/b'', Some ''/a/y''])
        (Some [None, Some [1], Some [2], Some [3]]) (Some [0, 1, 1, 1]) 4)) (Some ''/'') \<and>
   EmbedFSFS_open
     (snd (EmbedFSFS_begin new_EmbedFSFS (Some [None, Some ''a/x'', Some ''/b'', Some ''/a/y''])
        (Some [None, Some [1], Some [2], Some [3]]) (Some [0, 1, 1, 1]) 4)) (Some ''/'') =
     DirPtr \<lparr>d_path = Some ''/'', d_name = Some ''/'',
       d_owner = Some \<lparr>impl_names = [None, Some ''a/x'', Some ''/b'', Some ''/a/y''],
         impl_data = [None, Some [1], Some [2], Some [3]], impl_sizes = [0, 1, 1, 1],
         impl_count = 4\<rparr>,
       d_entries = [\<lparr>path = ''/a'', isDir = True\<rparr>, \<lparr>path = ''/b'', isDir = False\<rparr>],
       d_index = 0\<rparr> \<and>
   EmbedFSFS_open
     (snd (EmbedFSFS_begin new_EmbedFSFS (Some [None]) (Some [None]) (Some [0]) 1)) (Some ''/'') =
     DirPtr \<lparr>d_path = Some ''/'', d_name = Some ''/'',
       d_owner = Some \<lparr>impl_names = [None], impl_data = [None], impl_sizes = [0],
         impl_count = 1\<rparr>,
       d_entries = [], d_index = 0\<rparr> \<and>
   EmbedFSFS_open
     (snd (EmbedFSFS_begin new_EmbedFSFS (Some [Some ''a'', Some ''//'', Some []])
        (Some [Some [1], Some [2, 2], Some [3, 3, 3]]) (Some [1, 2, 3]) 3)) (Some ''/'') =
     FilePtr \<lparr>f_path = Some ''/'', f_name = Some ''/'', f_data = Some [2, 2], f_size = 2,
       f_pos = 0\<rparr>"
proof -
  let ?impl = "\<lparr>impl_names = [None, Some ''a/x'', Some ''/b'', Some ''/a/y''],
    impl_data = [None, Some [1], Some [2], Some [3 :: byte]], impl_sizes = [0, 1, 1, 1],
    impl_count = 4\<rparr>"
  let ?s = "snd (EmbedFSFS_begin new_EmbedFSFS (Some [None, Some ''a/x'', Some ''/b'', Some ''/a/y''])
        (Some [None, Some [1], Some [2], Some [3]]) (Some [0, 1, 1, 1]) 4)"
  let ?none = "\<lparr>impl_names = [None], impl_data = [None :: byte list option], impl_sizes = [0],
    impl_count = 1\<rparr>"
  let ?t = "snd (EmbedFSFS_begin new_EmbedFSFS (Some [None]) (Some [None]) (Some [0]) 1)"
  let ?slash = "\<lparr>impl_names = [Some ''a'', Some ''//'', Some []],
    impl_data = [Some [1], Some [2, 2], Some [3, 3, 3 :: byte]], impl_sizes = [1, 2, 3],
    impl_count = 3\<rparr>"
  let ?u = "snd (EmbedFSFS_begin new_EmbedFSFS (Some [Some ''a'', Some ''//'', Some []])
        (Some [Some [1], Some [2, 2], Some [3, 3, 3]]) (Some [1, 2, 3]) 3)"
  have b: "EmbedFSFS_begin new_EmbedFSFS (Some [None, Some ''a/x'', Some ''/b'', Some ''/a/y''])
        (Some [None, Some [1], Some [2], Some [3]]) (Some [0, 1, 1, 1]) 4 = (True, ?s)"
    by (simp add: EmbedFSFS_begin_def)
  have b0: "EmbedFSFS_begin new_EmbedFSFS (Some [None]) (Some [None]) (Some [0]) 1 = (True, ?t)"
    by (simp add: EmbedFSFS_begin_def)
  have b1: "EmbedFSFS_begin new_EmbedFSFS (Some [Some ''a'', Some ''//'', Some []])
        (Some [Some [1], Some [2, 2], Some [3, 3, 3]]) (Some [1, 2, 3]) 3 = (True, ?u)"
    by (simp add: EmbedFSFS_begin_def)
  have i: "fs_impl ?s = Some ?impl" by (simp add: EmbedFSFS_begin_def)
  have i0: "fs_impl ?t = Some ?none" by (simp add: EmbedFSFS_begin_def)
  have i1: "fs_impl ?u = Some ?slash" by (simp add: EmbedFSFS_begin_def)
  have c: "unat (4 :: size_t) = Suc (Suc (Suc (Suc 0)))" by simp
  have h: "\<forall>i<unat (4 :: size_t). \<not> exact_at ?impl [] i"
    unfolding c
    by (simp add: All_less_Suc exact_at_def normalize_path_def erase_front_def
        pop_back_slashes.simps)
  have h0: "\<forall>i<unat (1 :: size_t). \<not> exact_at ?none [] i"
    by (simp add: exact_at_def)
  have ch: "children_of ?impl [] =
      [\<lparr>path = ''/a'', isDir = True\<rparr>, \<lparr>path = ''/b'', isDir = False\<rparr>]"
    by (simp add: children_of_def dedup_children_def occurrences_def indices_def upt_conv_Cons
        child_occurrence_def first_seen_def normalize_path_def erase_front_def
        pop_back_slashes.simps Let_def)
  have ch0: "children_of ?none [] = []"
    by (simp add: children_of_def dedup_children_def occurrences_def indices_def upt_conv_Cons
        first_seen_def)
  from root_after_begin [OF b] i h
  have r: "EmbedFSFS_exists ?s (Some ''/'') \<and>
      EmbedFSFS_open ?s (Some ''/'') =
        DirPtr \<lparr>d_path = Some ''/'', d_name = Some ''/'', d_owner = Some ?impl,
            d_entries = children_of ?impl [], d_index = 0\<rparr>"
    by auto
  from root_after_begin [OF b0] i0 h0
  have r0: "EmbedFSFS_open ?t (Some ''/'') =
        DirPtr \<lparr>d_path = Some ''/'', d_name = Some ''/'', d_owner = Some ?none,
            d_entries = children_of ?none [], d_index = 0\<rparr>"
    by auto
  have e0: "\<not> exact_at ?slash [] 0" and e1: "exact_at ?slash [] 1" and e2: "exact_at ?slash [] 2"
    by (simp_all add: exact_at_def normalize_path_def erase_front_def pop_back_slashes.simps)
  have j: "2 < unat (3 :: size_t)" by simp
  from root_after_begin [OF b1] obtain m where m: "fs_impl ?u = Some m"
    and fl: "\<forall>j<unat (3 :: size_t). exact_at m [] j \<longrightarrow>
        (\<exists>k\<le>j. exact_at m [] k \<and> (\<forall>i<k. \<not> exact_at m [] i) \<and>
           EmbedFSFS_open ?u (Some ''/'') =
             FilePtr \<lparr>f_path = Some ''/'', f_name = Some ''/'', f_data = impl_data m ! k,
               f_size = impl_sizes m ! k, f_pos = 0\<rparr>)"
    by blast
  from m i1 have "m = ?slash" by (simp only: option.inject)
  with fl j e2
  obtain k where k: "k \<le> 2" "exact_at ?slash [] k" "\<forall>i<k. \<not> exact_at ?slash [] i"
    and o: "EmbedFSFS_open ?u (Some ''/'') =
      FilePtr \<lparr>f_path = Some ''/'', f_name = Some ''/'', f_data = impl_data ?slash ! k,
        f_size = impl_sizes ?slash ! k, f_pos = 0\<rparr>"
    by blast
  have "\<not> 1 < k" using k(3) e1 by blast
  moreover have "k \<noteq> 0"
  proof
    assume "k = 0"
    with k(2) have "exact_at ?slash [] 0" by (simp only:)
    with e0 show False ..
  qed
  ultimately have "k = 1" by linarith
  with o have r1: "EmbedFSFS_open ?u (Some ''/'') =
      FilePtr \<lparr>f_path = Some ''/'', f_name = Some ''/'', f_data = Some [2, 2], f_size = 2,
        f_pos = 0\<rparr>"
    by simp
  from r r0 r1 show ?thesis
    unfolding ch ch0 by simp
qed

end
